theory Spec2Isabelle
  imports Main "HOL-Library.Word"
begin

unbundle bit_operations_syntax

section \<open>Constants and tables of the wheel\<close>

text \<open>
  The Go constants \<^verbatim>\<open>SlotBits\<close>, \<^verbatim>\<open>SlotSize\<close>, \<^verbatim>\<open>SlotMask\<close> and \<^verbatim>\<open>MaxLevel\<close>, and the four
  tables indexed by the level. A \<^verbatim>\<open>uint64\<close> is a \<open>64 word\<close>; the level is a Go \<^verbatim>\<open>int\<close>
  and stays an \<open>int\<close> here. Indexing a table outside \<open>0..6\<close> panics in Go: \<open>tbl\<close> returns
  \<open>None\<close> there.
\<close>

type_synonym u64 = "64 word"

definition SlotBits :: nat where
  "SlotBits = 6"

definition SlotSize :: nat where
  "SlotSize = 2 ^ SlotBits"

definition SlotMask :: u64 where
  "SlotMask = 0x3F"

definition MaxLevel :: int where
  "MaxLevel = 6"

definition msPerSlot :: "u64 list" where
  "msPerSlot = [1, 64, 4096, 262144, 16777216, 1073741824, 68719476736]"

definition maxMs :: "u64 list" where
  "maxMs = [64, 4096, 262144, 16777216, 1073741824, 68719476736, 4398046511104]"

text \<open>The table \<^verbatim>\<open>mask\<close> is named \<open>mask_t\<close>: \<open>mask\<close> is a constant of the word library.\<close>

definition shift :: "nat list" where
  "shift = [0, 6, 12, 18, 24, 30, 36]"

definition mask_t :: "u64 list" where
  "mask_t = [0x3F, push_bit 6 0x3F, push_bit 12 0x3F, push_bit 18 0x3F,
           push_bit 24 0x3F, push_bit 30 0x3F, push_bit 36 0x3F]"

definition tbl :: "'a list \<Rightarrow> int \<Rightarrow> 'a option" where
  "tbl xs i = (if 0 \<le> i \<and> i < int (length xs) then Some (xs ! nat i) else None)"

section \<open>Entries\<close>

text \<open>
  An entry lives on the heap and is shared by pointer between the producer (which cancels
  through the handle) and the engine. Its address is an \<open>addr\<close>; the heap maps every address
  to the fields. The link \<^verbatim>\<open>next\<close> is nil (\<open>None\<close>) or the address of an entry. The sentinel
  \<^verbatim>\<open>settingNext\<close> is the address of an entry of its own, allocated once when the package is
  initialised; the model fixes that address. A callback is a parameterless action on the
  caller's world \<open>'s\<close>; a nil callback is \<open>None\<close>. The deadline is kept in nanoseconds.
\<close>

type_synonym addr = nat

definition settingNext :: addr where
  "settingNext = 0"

record 's Entry =
  nxt :: "addr option"
  expireAt :: int
  callback :: "('s \<Rightarrow> 's) option"
  removed :: bool

type_synonym 's heap = "addr \<Rightarrow> 's Entry"


definition Execute :: "'s heap \<Rightarrow> addr \<Rightarrow> 's \<Rightarrow> 's" where
  "Execute h e s =
     (if \<not> removed (h e) \<and> callback (h e) \<noteq> None then the (callback (h e)) s else s)"

definition Cancel :: "addr \<Rightarrow> 's heap \<Rightarrow> 's heap" where
  "Cancel e h = h(e := (h e)\<lparr>removed := True\<rparr>)"

definition IsCanceled :: "'s heap \<Rightarrow> addr \<Rightarrow> bool" where
  "IsCanceled h e = removed (h e)"

section \<open>The wheel\<close>

text \<open>
  A wheel has a level, a bitmap and two arrays of \<^verbatim>\<open>SlotSize\<close> slots. A Go array of fixed
  size is a function from the index; the code only ever reads and writes the indices below
  64. The chain of entries that hangs off \<^verbatim>\<open>entries[i]\<close> through the \<^verbatim>\<open>next\<close> links is
  owned by the wheel alone and is kept as the list of its addresses, head first; a nil head
  is the empty list. A nil sub-wheel is \<open>None\<close>.
\<close>

datatype Wheel =
  Wheel (level: int) (bitmap: u64) (entries: "nat \<Rightarrow> addr list")
    (subWheels: "nat \<Rightarrow> Wheel option")

definition NewWheel :: "int \<Rightarrow> Wheel" where
  "NewWheel l = Wheel l 0 (\<lambda>i. []) (\<lambda>i. None)"

definition NewWheelWithChild :: "Wheel \<Rightarrow> Wheel" where
  "NewWheelWithChild child =
     Wheel (level child + 1) 1 (\<lambda>i. []) ((\<lambda>i. None)(0 := Some child))"

definition Empty :: "Wheel \<Rightarrow> bool" where
  "Empty w = (bitmap w = 0)"


definition MaxMs :: "Wheel \<Rightarrow> u64 option" where
  "MaxMs w = tbl maxMs (level w)"

definition getIndex :: "Wheel \<Rightarrow> u64 \<Rightarrow> u64 option" where
  "getIndex w interval =
     (if level w = 0 then Some (interval AND SlotMask)
      else case tbl mask_t (level w) of
             None \<Rightarrow> None
           | Some m \<Rightarrow> (case tbl shift (level w) of
                          None \<Rightarrow> None
                        | Some sh \<Rightarrow> Some (drop_bit sh (interval AND m))))"

section \<open>Indexing\<close>

lemma and_shifted_mask:
  "drop_bit n ((d :: u64) AND push_bit n 0x3F) = drop_bit n d AND 0x3F"
  by (rule bit_word_eqI) (auto simp: bit_simps dest: bit_imp_le_length)

lemma level_cases:
  assumes "0 \<le> (l :: int)" and "l \<le> 6"
  shows "l = 0 \<or> l = 1 \<or> l = 2 \<or> l = 3 \<or> l = 4 \<or> l = 5 \<or> l = 6"
  using assms by arith

lemma tbl_msPerSlot:
  assumes "0 \<le> l" and "l \<le> 6"
  shows "tbl msPerSlot l = Some (64 ^ nat l)"
  using level_cases [OF assms] by (auto simp: tbl_def msPerSlot_def)

lemma tbl_maxMs:
  assumes "0 \<le> l" and "l \<le> 6"
  shows "tbl maxMs l = Some (64 ^ (nat l + 1))"
  using level_cases [OF assms] by (auto simp: tbl_def maxMs_def)

lemma tbl_shift:
  assumes "0 \<le> l" and "l \<le> 6"
  shows "tbl shift l = Some (6 * nat l)"
  using level_cases [OF assms] by (auto simp: tbl_def shift_def)

lemma tbl_mask:
  assumes "0 \<le> l" and "l \<le> 6"
  shows "tbl mask_t l = Some (push_bit (6 * nat l) 0x3F)"
  using level_cases [OF assms] by (auto simp: tbl_def mask_t_def)

lemma getIndex_eq:
  assumes "0 \<le> level w" and "level w \<le> 6"
  shows "getIndex w d = Some (drop_bit (6 * nat (level w)) d AND 0x3F)"
proof (cases "level w = 0")
  case True
  then show ?thesis by (simp add: getIndex_def SlotMask_def)
next
  case False
  have "getIndex w d
        = Some (drop_bit (6 * nat (level w)) (d AND push_bit (6 * nat (level w)) 0x3F))"
    using False assms by (simp add: getIndex_def tbl_shift tbl_mask)
  then show ?thesis by (simp only: and_shifted_mask)
qed

text \<open>
  C6. For every level in \<open>0..6\<close> and every 64-bit interval \<open>d\<close>, whatever its size,
  \<^verbatim>\<open>getIndex\<close> returns \<open>(d >> 6\<cdot>level) & 0x3F\<close>, and the frozen tables hold
  \<open>64^level\<close>, \<open>64^(level+1)\<close>, \<open>6\<cdot>level\<close> and \<open>0x3F << 6\<cdot>level\<close>.
\<close>

theorem getIndex_slot:
  assumes "0 \<le> level w" and "level w \<le> MaxLevel"
  shows "getIndex w d = Some (drop_bit (6 * nat (level w)) d AND 0x3F)
         \<and> tbl msPerSlot (level w) = Some (64 ^ nat (level w))
         \<and> tbl maxMs (level w) = Some (64 ^ (nat (level w) + 1))
         \<and> tbl shift (level w) = Some (6 * nat (level w))
         \<and> tbl mask_t (level w) = Some (push_bit (6 * nat (level w)) 0x3F)"
  using assms
  by (simp add: MaxLevel_def getIndex_eq tbl_msPerSlot tbl_maxMs tbl_shift tbl_mask)

theorem getIndex_slot_witness:
  "getIndex (NewWheel 2) 0xFFFFFFFFFFFFFFFF = Some 0x3F
   \<and> tbl msPerSlot 2 = Some 4096 \<and> tbl maxMs 2 = Some 262144
   \<and> tbl shift 2 = Some 12 \<and> tbl mask_t 2 = Some 0x3F000"
  using getIndex_slot [of "NewWheel 2" "0xFFFFFFFFFFFFFFFF"]
  by (simp add: NewWheel_def MaxLevel_def)

section \<open>Operations of the wheel\<close>

text \<open>
  \<^verbatim>\<open>bits.TrailingZeros64\<close>: the index of the least significant set bit, 64 for zero.
\<close>

definition TrailingZeros64 :: "u64 \<Rightarrow> nat" where
  "TrailingZeros64 x = (case find (bit x) [0..<64] of None \<Rightarrow> 64 | Some i \<Rightarrow> i)"

text \<open>
  A measure for the recursions below: every sub-wheel in one of the 64 slots weighs less
  than its parent, and so does a fresh wheel of the next lower level.
\<close>

primrec weight :: "Wheel \<Rightarrow> nat" where
  "weight (Wheel l b es sws) =
     Suc (nat l + (\<Sum>i<64. case map_option weight (sws i) of None \<Rightarrow> 0 | Some n \<Rightarrow> n))"

lemma weight_child:
  assumes "i < 64" and "subWheels w i = Some c"
  shows "weight c < weight w"
proof (cases w)
  case (Wheel l b es sws)
  let ?f = "\<lambda>i. case map_option weight (sws i) of None \<Rightarrow> 0 | Some n \<Rightarrow> n"
  have "?f i \<le> (\<Sum>i<64. ?f i)"
    by (rule member_le_sum) (use assms in auto)
  then show ?thesis using assms Wheel by simp
qed

lemma weight_NewWheel: "weight (NewWheel l) = Suc (nat l)"
  by (simp add: NewWheel_def)

lemma weight_ge_level: "nat (level w) < weight w"
  by (cases w) simp

lemma TrailingZeros64_zero: "TrailingZeros64 0 = 64"
proof -
  have "find (bit (0::u64)) [0..<64] = None"
    unfolding find_None_iff by simp
  then show ?thesis
    unfolding TrailingZeros64_def by (simp only: option.case)
qed

lemma TrailingZeros64_props:
  assumes "x \<noteq> 0"
  shows "TrailingZeros64 x < 64" and "bit x (TrailingZeros64 x)"
    and "\<forall>j < TrailingZeros64 x. \<not> bit x j"
proof -
  from assms obtain n where n: "bit x n"
    by (auto simp: bit_eq_iff)
  then have "n < 64" by (auto dest: bit_imp_le_length)
  with n have "\<exists>i\<in>set [0..<64]. bit x i" by auto
  then obtain i where f: "find (bit x) [0..<64] = Some i"
    by (cases "find (bit x) [0..<64]") (auto simp: find_None_iff)
  then have tz: "TrailingZeros64 x = i" by (simp add: TrailingZeros64_def)
  from f obtain k where k: "k < 64" "bit x ([0..<64] ! k)" "i = [0..<64] ! k"
      "\<forall>j<k. \<not> bit x ([0..<64] ! j)"
    by (auto simp: find_Some_iff)
  then have ik: "i = k" by simp
  show "TrailingZeros64 x < 64" using tz ik k by simp
  show "bit x (TrailingZeros64 x)" using tz ik k by simp
  show "\<forall>j < TrailingZeros64 x. \<not> bit x j"
  proof (intro allI impI)
    fix j assume "j < TrailingZeros64 x"
    then have "j < k" using tz ik by simp
    moreover from this k have "j < 64" by simp
    ultimately show "\<not> bit x j" using k(4) by auto
  qed
qed

lemma unat_TrailingZeros64:
  "unat (word_of_nat (TrailingZeros64 x) :: u64) = TrailingZeros64 x"
proof -
  have "TrailingZeros64 x \<le> 64"
    using TrailingZeros64_props(1) [of x] TrailingZeros64_zero by (cases "x = 0") auto
  then show ?thesis by (simp add: unat_of_nat)
qed

lemma getIndex_bound:
  assumes "getIndex w d = Some index"
  shows "unat index < 64"
proof -
  have a: "unat ((x :: u64) AND 0x3F) < 64" for x
  proof -
    have "x AND 0x3F \<le> 0x3F" by (rule word_and_le1)
    then show ?thesis by (simp add: word_le_nat_alt)
  qed
  show ?thesis
  proof (cases "level w = 0")
    case True
    with assms show ?thesis by (auto simp: getIndex_def SlotMask_def a)
  next
    case False
    with assms have r: "0 \<le> level w \<and> level w \<le> 6"
      by (auto simp: getIndex_def tbl_def mask_t_def split: option.splits if_splits)
    then show ?thesis using assms a by (auto simp: getIndex_eq)
  qed
qed

lemma getIndex_level:
  assumes "getIndex w d = Some index" and "level w \<noteq> 0"
  shows "1 \<le> level w \<and> level w \<le> 6"
  using assms
  by (auto simp: getIndex_def tbl_def mask_t_def split: option.splits if_splits)

text \<open>
  \<^verbatim>\<open>AddEntry\<close>. A panic (a level outside the tables) is \<open>None\<close>. At level 0 the entry is
  prepended to the chain of its slot. Above, the child is created on demand, and the same
  interval is passed down.
\<close>

function AddEntry :: "Wheel \<Rightarrow> addr \<Rightarrow> u64 \<Rightarrow> Wheel option" where
  "AddEntry w entry interval =
     (case getIndex w interval of
        None \<Rightarrow> None
      | Some index \<Rightarrow>
          if level w = 0 then
            Some (Wheel (level w) (bitmap w OR push_bit (unat index) 1)
                    ((entries w)(unat index := entry # entries w (unat index))) (subWheels w))
          else
            (case subWheels w (unat index) of
               None \<Rightarrow>
                 (case AddEntry (NewWheel (level w - 1)) entry interval of
                    None \<Rightarrow> None
                  | Some child \<Rightarrow>
                      Some (Wheel (level w) (bitmap w OR push_bit (unat index) 1) (entries w)
                              ((subWheels w)(unat index := Some child))))
             | Some child0 \<Rightarrow>
                 (case AddEntry child0 entry interval of
                    None \<Rightarrow> None
                  | Some child \<Rightarrow>
                      Some (Wheel (level w) (bitmap w) (entries w)
                              ((subWheels w)(unat index := Some child))))))"
  by pat_completeness auto
termination
proof (relation "measure (\<lambda>(w, e, d). weight w)", goal_cases)
  case 1
  show ?case by simp
next
  case (2 w entry interval index)
  then have "1 \<le> level w" using getIndex_level by blast
  then have "nat (level w - 1) < nat (level w)" by simp
  then show ?case using weight_ge_level [of w] by (simp add: weight_NewWheel)
next
  case (3 w entry interval index child0)
  then have "unat index < 64" using getIndex_bound by blast
  with 3 show ?case using weight_child by simp
qed

text \<open>
  \<^verbatim>\<open>RemoveEntry\<close>. When the entry is not the head of its chain the code walks the chain
  for its predecessor; \<open>unlinkAfter\<close> is that walk from a non-nil \<^verbatim>\<open>cur\<close>. Reaching the end
  of the chain dereferences nil, a panic; so does an empty slot, and so does a nil child.
\<close>

fun unlinkAfter :: "addr \<Rightarrow> addr list \<Rightarrow> addr list option" where
  "unlinkAfter entry [] = None"
| "unlinkAfter entry [cur] = None"
| "unlinkAfter entry (cur # nx # rest) =
     (if nx = entry then Some (cur # rest)
      else map_option (Cons cur) (unlinkAfter entry (nx # rest)))"

function RemoveEntry :: "Wheel \<Rightarrow> addr \<Rightarrow> u64 \<Rightarrow> Wheel option" where
  "RemoveEntry w entry interval =
     (case getIndex w interval of
        None \<Rightarrow> None
      | Some index \<Rightarrow>
          if level w = 0 then
            (case entries w (unat index) of
               [] \<Rightarrow> None
             | head # rest \<Rightarrow>
                 if head = entry then
                   Some (Wheel (level w)
                           (if rest = [] then bitmap w AND NOT (push_bit (unat index) 1)
                            else bitmap w)
                           ((entries w)(unat index := rest)) (subWheels w))
                 else
                   (case unlinkAfter entry (head # rest) of
                      None \<Rightarrow> None
                    | Some chain \<Rightarrow>
                        Some (Wheel (level w) (bitmap w) ((entries w)(unat index := chain))
                                (subWheels w))))
          else
            (case subWheels w (unat index) of
               None \<Rightarrow> None
             | Some child0 \<Rightarrow>
                 (case RemoveEntry child0 entry interval of
                    None \<Rightarrow> None
                  | Some child \<Rightarrow>
                      if Empty child then
                        Some (Wheel (level w) (bitmap w AND NOT (push_bit (unat index) 1))
                                (entries w) ((subWheels w)(unat index := None)))
                      else
                        Some (Wheel (level w) (bitmap w) (entries w)
                                ((subWheels w)(unat index := Some child))))))"
  by pat_completeness auto
termination
proof (relation "measure (\<lambda>(w, e, d). weight w)", goal_cases)
  case 1
  show ?case by simp
next
  case (2 w entry interval index child0)
  then have "unat index < 64" using getIndex_bound by blast
  with 2 show ?case using weight_child by simp
qed

text \<open>
  \<^verbatim>\<open>HandleExpiredEntries\<close>. The handler acts on the caller's world \<open>'s\<close>. \<open>fireSlot\<close> is the
  inner loop that pops the chain of one slot; the outer loop runs while the bitmap is not
  zero and carries \<^verbatim>\<open>count\<close>. A set bit over a nil child is a panic.
\<close>

fun fireSlot :: "(addr \<Rightarrow> 's \<Rightarrow> 's) \<Rightarrow> addr list \<Rightarrow> nat \<Rightarrow> 's \<Rightarrow> nat \<times> 's" where
  "fireSlot handler [] count s = (count, s)"
| "fireSlot handler (entry # rest) count s = fireSlot handler rest (count + 1) (handler entry s)"

lemma weight_drop_child:
  "weight (Wheel l b es (sws(i := None))) \<le> weight (Wheel l b' es' sws)"
proof -
  have "(\<Sum>j<64. case map_option weight ((sws(i := None)) j) of None \<Rightarrow> 0 | Some n \<Rightarrow> n)
        \<le> (\<Sum>j<64. case map_option weight (sws j) of None \<Rightarrow> 0 | Some n \<Rightarrow> n)"
    by (rule sum_mono) simp
  then show ?thesis by simp
qed

lemma clear_lowest_less:
  assumes "(b :: u64) \<noteq> 0"
  shows "unat (b AND NOT (push_bit (TrailingZeros64 b) 1)) < unat b"
proof -
  let ?i = "TrailingZeros64 b"
  have i: "?i < 64" "bit b ?i" using TrailingZeros64_props [OF assms] by auto
  have le: "b AND NOT (push_bit ?i 1) \<le> b" by (rule word_and_le2)
  have "b AND NOT (push_bit ?i 1) \<noteq> b"
  proof
    assume "b AND NOT (push_bit ?i 1) = b"
    then have "bit (b AND NOT (push_bit ?i 1)) ?i = bit b ?i" by simp
    then show False using i by (simp add: bit_simps)
  qed
  with le have "b AND NOT (push_bit ?i 1) < b" by simp
  then show ?thesis by (simp add: word_less_nat_alt)
qed

function HandleExpiredEntries_loop ::
  "(addr \<Rightarrow> 's \<Rightarrow> 's) \<Rightarrow> Wheel \<Rightarrow> u64 \<Rightarrow> nat \<Rightarrow> 's \<Rightarrow> (Wheel \<times> nat \<times> 's) option" where
  "HandleExpiredEntries_loop handler w remainingMs count s =
     (if bitmap w = 0 then Some (w, count, s)
      else
        let index = (word_of_nat (TrailingZeros64 (bitmap w)) :: u64) in
        if level w = 0 then
          (if index > remainingMs then Some (w, count, s)
           else
             (case fireSlot handler (entries w (unat index)) count s of
                (count1, s1) \<Rightarrow>
                  HandleExpiredEntries_loop handler
                    (Wheel (level w) (bitmap w AND NOT (push_bit (unat index) 1))
                       ((entries w)(unat index := [])) (subWheels w))
                    remainingMs count1 s1))
        else
          (case tbl msPerSlot (level w) of
             None \<Rightarrow> None
           | Some mps \<Rightarrow>
               let slotMs = index * mps in
               if slotMs > remainingMs then Some (w, count, s)
               else
                 (case subWheels w (unat index) of
                    None \<Rightarrow> None
                  | Some child0 \<Rightarrow>
                      (case HandleExpiredEntries_loop handler child0 (remainingMs - slotMs) 0 s of
                         None \<Rightarrow> None
                       | Some (child, n, s1) \<Rightarrow>
                           if Empty child then
                             HandleExpiredEntries_loop handler
                               (Wheel (level w) (bitmap w AND NOT (push_bit (unat index) 1))
                                  (entries w) ((subWheels w)(unat index := None)))
                               remainingMs (count + n) s1
                           else
                             Some (Wheel (level w) (bitmap w) (entries w)
                                     ((subWheels w)(unat index := Some child)),
                                   count + n, s1)))))"
  by pat_completeness auto
termination
proof (relation "inv_image (less_than <*lex*> less_than)
                   (\<lambda>(h, w, r, c, s). (weight w, unat (bitmap w)))", goal_cases)
  case 1
  show ?case by (intro wf_inv_image wf_lex_prod wf_less_than)
next
  case (2 handler w remainingMs count s index x y)
  then have "bitmap w \<noteq> 0" by simp
  from clear_lowest_less [OF this] 2 show ?case
    by (cases w) (simp add: unat_TrailingZeros64)
next
  case (3 handler w remainingMs count s index mps slotMs child0)
  then have "bitmap w \<noteq> 0" by simp
  then have "TrailingZeros64 (bitmap w) < 64" by (rule TrailingZeros64_props)
  with 3 show ?case using weight_child [of "unat index" w child0]
    by (simp add: unat_TrailingZeros64)
next
  case (4 handler w remainingMs count s index mps slotMs child0 r child rr n s1)
  then have nz: "bitmap w \<noteq> 0" by simp
  have le: "weight (Wheel (level w) (bitmap w AND NOT (push_bit (unat index) 1))
                 (entries w) ((subWheels w)(unat index := None))) \<le> weight w"
    using weight_drop_child [of "level w" _ "entries w" "subWheels w" "unat index"
                                "bitmap w" "entries w"]
    by simp
  from clear_lowest_less [OF nz] 4 le show ?case
    by (auto simp: unat_TrailingZeros64)
qed

definition HandleExpiredEntries ::
  "(addr \<Rightarrow> 's \<Rightarrow> 's) \<Rightarrow> Wheel \<Rightarrow> u64 \<Rightarrow> 's \<Rightarrow> (Wheel \<times> nat \<times> 's) option" where
  "HandleExpiredEntries handler w remainingMs s = HandleExpiredEntries_loop handler w remainingMs 0 s"

text \<open>\<^verbatim>\<open>NextExpirationTime\<close>; \<^verbatim>\<open>^uint64(0)\<close> is \<open>NOT 0\<close>.\<close>

function NextExpirationTime :: "Wheel \<Rightarrow> u64 option" where
  "NextExpirationTime w =
     (if Empty w then Some (NOT 0)
      else
        let index = (word_of_nat (TrailingZeros64 (bitmap w)) :: u64) in
        if level w = 0 then Some index
        else
          (case tbl msPerSlot (level w) of
             None \<Rightarrow> None
           | Some mps \<Rightarrow>
               (case subWheels w (unat index) of
                  None \<Rightarrow> None
                | Some child \<Rightarrow>
                    (case NextExpirationTime child of
                       None \<Rightarrow> None
                     | Some t \<Rightarrow> Some (index * mps + t)))))"
  by pat_completeness auto
termination
proof (relation "measure weight", goal_cases)
  case 1
  show ?case by simp
next
  case (2 w index mps child)
  then have "bitmap w \<noteq> 0" by (simp add: Empty_def)
  then have "TrailingZeros64 (bitmap w) < 64" by (rule TrailingZeros64_props)
  with 2 show ?case using weight_child [of "unat index" w child]
    by (simp add: unat_TrailingZeros64)
qed

text \<open>
  \<^verbatim>\<open>Rotate\<close>. \<open>rotateLoop\<close> is the loop \<^verbatim>\<open>for i := n; i < SlotSize; i++\<close> over one of the two
  arrays, \<open>nil\<close> being the value it stores behind itself.
\<close>

function rotateLoop :: "nat \<Rightarrow> nat \<Rightarrow> 'a \<Rightarrow> (nat \<Rightarrow> 'a) \<Rightarrow> (nat \<Rightarrow> 'a)" where
  "rotateLoop n i nil slots =
     (if i < SlotSize then rotateLoop n (i + 1) nil (slots(i - n := slots i, i := nil))
      else slots)"
  by pat_completeness auto
termination
  by (relation "measure (\<lambda>(n, i, nil, slots). SlotSize - i)") auto

definition Rotate :: "u64 \<Rightarrow> Wheel \<Rightarrow> Wheel" where
  "Rotate n w =
     (if n = 0 \<or> n \<ge> word_of_nat SlotSize then w
      else if level w = 0 then
        Wheel (level w) (drop_bit (unat n) (bitmap w))
          (rotateLoop (unat n) (unat n) [] (entries w)) (subWheels w)
      else
        Wheel (level w) (drop_bit (unat n) (bitmap w))
          (entries w) (rotateLoop (unat n) (unat n) None (subWheels w)))"

text \<open>\<^verbatim>\<open>LevelUp\<close>, \<^verbatim>\<open>LevelDown\<close> (nil is \<open>None\<close>) and \<^verbatim>\<open>CanLevelDown\<close>.\<close>

definition LevelUp :: "Wheel \<Rightarrow> Wheel" where
  "LevelUp w = NewWheelWithChild w"

definition LevelDown :: "Wheel \<Rightarrow> Wheel option" where
  "LevelDown w = (if level w = 0 then None else subWheels w 0)"

definition CanLevelDown :: "Wheel \<Rightarrow> bool" where
  "CanLevelDown w = (bitmap w = 1 \<and> level w > 0)"

declare AddEntry.simps [simp del] RemoveEntry.simps [simp del]
  HandleExpiredEntries_loop.simps [simp del] NextExpirationTime.simps [simp del]
  rotateLoop.simps [simp del]

section \<open>A wheel to run the operations on\<close>

text \<open>
  A level-1 wheel whose slot 1 holds a level-0 wheel with the chain \<open>[7, 8]\<close> in slot 36:
  two entries due 100 ms after the start.
\<close>

definition demoWheel :: Wheel where
  "demoWheel =
     Wheel 1 2 (\<lambda>i. [])
       ((\<lambda>i. None)(1 := Some (Wheel 0 (push_bit 36 1) ((\<lambda>i. [])(36 := [7, 8])) (\<lambda>i. None))))"

lemma TrailingZeros64_Least:
  assumes "x \<noteq> 0"
  shows "TrailingZeros64 x = (LEAST k. bit x k)"
proof (rule Least_equality [symmetric])
  show "bit x (TrailingZeros64 x)" using TrailingZeros64_props(2) [OF assms] .
next
  fix y assume "bit x y"
  then show "TrailingZeros64 x \<le> y"
    using TrailingZeros64_props(3) [OF assms] by (meson not_le)
qed

lemma fireSlot_fold:
  "fireSlot handler chain count s = (count + length chain, fold handler chain s)"
  by (induction chain arbitrary: count s) auto

lemma tz2: "TrailingZeros64 2 = 1"
  by code_simp

lemma tz36: "TrailingZeros64 68719476736 = 36"
  by code_simp

lemma tz_demo: "(LEAST k. bit (2::u64) k) = 1"
proof -
  have "(2::u64) \<noteq> 0" by simp
  from TrailingZeros64_Least [OF this] show ?thesis by (simp only: tz2)
qed

lemma demo_run:
  "HandleExpiredEntries_loop (\<lambda>e log. log @ [e]) demoWheel 100 0 []
   = Some (Wheel 1 0 (\<lambda>i. []) (\<lambda>i. None), 2, [7, 8])"
  by (simp add: demoWheel_def HandleExpiredEntries_loop.simps tz2 tz36 Let_def tbl_def
        msPerSlot_def Empty_def)

lemma demo_run2:
  "HandleExpiredEntries_loop (\<lambda>e log. log @ [e]) demoWheel 99 0 []
   = Some (demoWheel, 0, [])"
  by (simp add: demoWheel_def HandleExpiredEntries_loop.simps tz2 tz36 Let_def tbl_def
        msPerSlot_def Empty_def)

section \<open>Next expiration time\<close>

text \<open>
  C5. \<^verbatim>\<open>NextExpirationTime\<close> returns the maximum \<^verbatim>\<open>uint64\<close> for an empty wheel; at level 0
  the index of the least significant set bit of the bitmap; above level 0 that index times
  \<^verbatim>\<open>msPerSlot[level]\<close> plus the result of the sub-wheel in that slot (a nil sub-wheel there,
  or a level outside the table, is a panic).
\<close>

theorem NextExpirationTime_cases:
  "NextExpirationTime w =
     (if Empty w then Some (word_of_nat (2 ^ 64 - 1))
      else if level w = 0 then Some (word_of_nat (LEAST k. bit (bitmap w) k))
      else case tbl msPerSlot (level w) of
             None \<Rightarrow> None
           | Some mps \<Rightarrow>
               (case subWheels w (LEAST k. bit (bitmap w) k) of
                  None \<Rightarrow> None
                | Some child \<Rightarrow>
                    map_option (\<lambda>t. word_of_nat (LEAST k. bit (bitmap w) k) * mps + t)
                      (NextExpirationTime child)))"
proof (cases "Empty w")
  case True
  then show ?thesis by (subst NextExpirationTime.simps) simp
next
  case False
  then have nz: "bitmap w \<noteq> 0" by (simp add: Empty_def)
  show ?thesis
    using False
    by (subst NextExpirationTime.simps)
       (simp add: TrailingZeros64_Least [OF nz, symmetric] unat_TrailingZeros64 Let_def
             split: option.splits)
qed

theorem NextExpirationTime_cases_witness:
  "NextExpirationTime demoWheel = Some 100 \<and> NextExpirationTime (NewWheel 3) = Some (- 1)"
proof -
  have sub: "NextExpirationTime (Wheel 0 68719476736 ((\<lambda>i. [])(36 := [7, 8])) (\<lambda>i. None))
             = Some 36"
    by (simp add: NextExpirationTime.simps Empty_def tz36)
  show ?thesis
    using NextExpirationTime_cases [of demoWheel] NextExpirationTime_cases [of "NewWheel 3"] sub
    by (simp add: demoWheel_def NewWheel_def Empty_def tz_demo tbl_def msPerSlot_def)
qed

section \<open>The expiry scan\<close>

lemma loop_unfold:
  "HandleExpiredEntries_loop handler w remainingMs count s =
     (if bitmap w = 0 then Some (w, count, s)
      else
        let i = (LEAST k. bit (bitmap w) k) in
        if level w = 0 then
          (if remainingMs < word_of_nat i then Some (w, count, s)
           else
             HandleExpiredEntries_loop handler
               (Wheel 0 (bitmap w AND NOT (push_bit i 1)) ((entries w)(i := [])) (subWheels w))
               remainingMs (count + length (entries w i)) (fold handler (entries w i) s))
        else
          (case tbl msPerSlot (level w) of
             None \<Rightarrow> None
           | Some mps \<Rightarrow>
               if remainingMs < word_of_nat i * mps then Some (w, count, s)
               else
                 (case subWheels w i of
                    None \<Rightarrow> None
                  | Some child0 \<Rightarrow>
                      (case HandleExpiredEntries handler child0
                              (remainingMs - word_of_nat i * mps) s of
                         None \<Rightarrow> None
                       | Some (child, n, s1) \<Rightarrow>
                           if bitmap child = 0 then
                             HandleExpiredEntries_loop handler
                               (Wheel (level w) (bitmap w AND NOT (push_bit i 1)) (entries w)
                                  ((subWheels w)(i := None)))
                               remainingMs (count + n) s1
                           else
                             Some (Wheel (level w) (bitmap w) (entries w)
                                     ((subWheels w)(i := Some child)),
                                   count + n, s1)))))"
proof (cases "bitmap w = 0")
  case True
  then show ?thesis by (subst HandleExpiredEntries_loop.simps) simp
next
  case False
  show ?thesis
    using False
    by (subst HandleExpiredEntries_loop.simps)
       (simp add: TrailingZeros64_Least [OF False, symmetric] unat_TrailingZeros64 Let_def
             fireSlot_fold HandleExpiredEntries_def Empty_def
             split: option.splits)
qed

lemma loop_fired:
  "HandleExpiredEntries_loop handler w r c s = Some (w', n, s')
   \<Longrightarrow> \<exists>fired. s' = fold handler fired s \<and> n = c + length fired"
proof (induction handler w r c s arbitrary: w' n s' rule: HandleExpiredEntries_loop.induct)
  case (1 handler w r c s)
  show ?case
  proof (cases "bitmap w = 0")
    case True
    with "1.prems" have "s' = s" "n = c"
      by (simp_all add: HandleExpiredEntries_loop.simps [of handler w])
    then show ?thesis by (intro exI [of _ "[]"]) simp
  next
    case nz: False
    define index :: u64 where "index = word_of_nat (TrailingZeros64 (bitmap w))"
    show ?thesis
    proof (cases "level w = 0")
      case l0: True
      show ?thesis
      proof (cases "index > r")
        case True
        with "1.prems" nz l0 have "s' = s" "n = c"
          by (simp_all add: HandleExpiredEntries_loop.simps [of handler w] index_def)
        then show ?thesis by (intro exI [of _ "[]"]) simp
      next
        case False
        let ?chain = "entries w (unat index)"
        let ?w1 = "Wheel (level w) (bitmap w AND NOT (push_bit (unat index) 1))
                     ((entries w)(unat index := [])) (subWheels w)"
        have eq: "HandleExpiredEntries_loop handler ?w1 r (c + length ?chain)
                    (fold handler ?chain s) = Some (w', n, s')"
          using "1.prems" nz l0 False
          by (simp add: HandleExpiredEntries_loop.simps [of handler w] index_def Let_def
                fireSlot_fold)
        have "\<exists>fired. s' = fold handler fired (fold handler ?chain s)
                      \<and> n = c + length ?chain + length fired"
          by (rule "1.IH"(1) [OF nz index_def l0 False _ eq])
             (simp add: fireSlot_fold)
        then obtain fired where "s' = fold handler fired (fold handler ?chain s)"
            "n = c + length ?chain + length fired" by blast
        then show ?thesis by (intro exI [of _ "?chain @ fired"]) simp
      qed
    next
      case ln: False
      from "1.prems" nz ln obtain mps where mps: "tbl msPerSlot (level w) = Some mps"
        by (auto simp: HandleExpiredEntries_loop.simps [of handler w] Let_def
              split: option.splits)
      define slotMs where "slotMs = index * mps"
      show ?thesis
      proof (cases "slotMs > r")
        case True
        with "1.prems" nz ln mps have "s' = s" "n = c"
          by (simp_all add: HandleExpiredEntries_loop.simps [of handler w] index_def
                slotMs_def Let_def)
        then show ?thesis by (intro exI [of _ "[]"]) simp
      next
        case False
        from "1.prems" nz ln mps False obtain child0 where
          c0: "subWheels w (unat index) = Some child0"
          by (auto simp: HandleExpiredEntries_loop.simps [of handler w] Let_def index_def
                slotMs_def split: option.splits)
        from "1.prems" nz ln mps False c0 obtain child m s1 where
          rec: "HandleExpiredEntries_loop handler child0 (r - slotMs) 0 s = Some (child, m, s1)"
          by (auto simp: HandleExpiredEntries_loop.simps [of handler w] Let_def index_def
                slotMs_def split: option.splits)
        have "\<exists>fired. s1 = fold handler fired s \<and> m = 0 + length fired"
          by (rule "1.IH"(2) [OF nz index_def ln mps slotMs_def False c0 rec])
        then obtain f1 where f1: "s1 = fold handler f1 s" "m = length f1" by auto
        show ?thesis
        proof (cases "Empty child")
          case True
          let ?w1 = "Wheel (level w) (bitmap w AND NOT (push_bit (unat index) 1))
                       (entries w) ((subWheels w)(unat index := None))"
          have eq: "HandleExpiredEntries_loop handler ?w1 r (c + m) s1 = Some (w', n, s')"
            using "1.prems" nz ln mps False c0 rec True
            by (simp add: HandleExpiredEntries_loop.simps [of handler w] Let_def index_def
                  slotMs_def)
          have "\<exists>fired. s' = fold handler fired s1 \<and> n = c + m + length fired"
            by (rule "1.IH"(3) [OF nz index_def ln mps slotMs_def False c0 rec _ _ True eq])
               simp_all
          then obtain f2 where "s' = fold handler f2 s1" "n = c + m + length f2" by blast
          with f1 show ?thesis by (intro exI [of _ "f1 @ f2"]) simp
        next
          case False
          have "s' = s1" "n = c + m"
            using "1.prems" nz ln mps \<open>\<not> slotMs > r\<close> c0 rec False
            by (simp_all add: HandleExpiredEntries_loop.simps [of handler w] Let_def index_def
                  slotMs_def)
          with f1 show ?thesis by (intro exI [of _ f1]) simp
        qed
      qed
    qed
  qed
qed

text \<open>
  C3. \<^verbatim>\<open>HandleExpiredEntries\<close> starts its loop with a count of 0. Each round of the loop
  takes the least significant set bit \<open>i\<close> of the bitmap. At level 0 it stops when
  \<open>i > remainingMs\<close>; otherwise it passes every entry of slot \<open>i\<close> to the handler in chain
  order, empties the slot, clears the bit and goes on. Above level 0 it stops when
  \<open>i * msPerSlot[level] > remainingMs\<close>; otherwise it scans the child with
  \<open>remainingMs - i * msPerSlot[level]\<close> and, when the child came back empty, drops it, clears
  the bit and goes on, else stops, keeping the child. The count it returns is the number of
  entries it passed to the handler.
\<close>

theorem HandleExpiredEntries_scan:
  "HandleExpiredEntries handler w remainingMs s
     = HandleExpiredEntries_loop handler w remainingMs 0 s
   \<and> HandleExpiredEntries_loop handler w remainingMs count s =
     (if bitmap w = 0 then Some (w, count, s)
      else
        let i = (LEAST k. bit (bitmap w) k) in
        if level w = 0 then
          (if remainingMs < word_of_nat i then Some (w, count, s)
           else
             HandleExpiredEntries_loop handler
               (Wheel 0 (bitmap w AND NOT (push_bit i 1)) ((entries w)(i := [])) (subWheels w))
               remainingMs (count + length (entries w i)) (fold handler (entries w i) s))
        else
          (case tbl msPerSlot (level w) of
             None \<Rightarrow> None
           | Some mps \<Rightarrow>
               if remainingMs < word_of_nat i * mps then Some (w, count, s)
               else
                 (case subWheels w i of
                    None \<Rightarrow> None
                  | Some child0 \<Rightarrow>
                      (case HandleExpiredEntries handler child0
                              (remainingMs - word_of_nat i * mps) s of
                         None \<Rightarrow> None
                       | Some (child, n, s1) \<Rightarrow>
                           if bitmap child = 0 then
                             HandleExpiredEntries_loop handler
                               (Wheel (level w) (bitmap w AND NOT (push_bit i 1)) (entries w)
                                  ((subWheels w)(i := None)))
                               remainingMs (count + n) s1
                           else
                             Some (Wheel (level w) (bitmap w) (entries w)
                                     ((subWheels w)(i := Some child)),
                                   count + n, s1)))))
   \<and> (\<forall>w' n s'. HandleExpiredEntries handler w remainingMs s = Some (w', n, s')
        \<longrightarrow> (\<exists>fired. s' = fold handler fired s \<and> n = length fired))"
proof (intro conjI allI impI)
  show "HandleExpiredEntries handler w remainingMs s
          = HandleExpiredEntries_loop handler w remainingMs 0 s"
    by (simp add: HandleExpiredEntries_def)
next
  fix w' n s'
  assume "HandleExpiredEntries handler w remainingMs s = Some (w', n, s')"
  then show "\<exists>fired. s' = fold handler fired s \<and> n = length fired"
    using loop_fired [of handler w remainingMs 0 s w' n s']
    by (simp add: HandleExpiredEntries_def)
qed (rule loop_unfold)

theorem HandleExpiredEntries_scan_witness:
  "HandleExpiredEntries (\<lambda>e log. log @ [e]) demoWheel 100 []
     = Some (Wheel 1 0 (\<lambda>i. []) (\<lambda>i. None), 2, [7, 8])
   \<and> (\<exists>fired. [7, 8 :: addr] = fold (\<lambda>e log. log @ [e]) fired [] \<and> (2::nat) = length fired)"
proof -
  have run: "HandleExpiredEntries (\<lambda>e log. log @ [e]) demoWheel 100 []
             = Some (Wheel 1 0 (\<lambda>i. []) (\<lambda>i. None), 2, [7, 8])"
    by (simp add: HandleExpiredEntries_def demo_run)
  from HandleExpiredEntries_scan [of "\<lambda>e log. log @ [e]" demoWheel 100 "[]" 0] run
  show ?thesis by blast
qed

section \<open>Bitmap faithfulness\<close>

text \<open>
  \<open>holdsEntry\<close>: the wheel is non-empty by content, recursively. \<open>slotNonEmpty\<close>: slot \<open>i\<close>
  is non-empty (a non-nil chain at level 0; a non-nil child that holds an entry above).
  \<open>faithful\<close>: in the wheel and in every wheel below it, bit \<open>i\<close> of the bitmap is set exactly
  when slot \<open>i\<close> is non-empty.
\<close>

primrec holdsEntry :: "Wheel \<Rightarrow> bool" where
  "holdsEntry (Wheel l b es sws) =
     list_ex (\<lambda>i. if l = 0 then es i \<noteq> []
                   else (case map_option holdsEntry (sws i) of None \<Rightarrow> False | Some r \<Rightarrow> r))
       [0..<SlotSize]"

definition slotNonEmpty :: "Wheel \<Rightarrow> nat \<Rightarrow> bool" where
  "slotNonEmpty w i =
     (if level w = 0 then entries w i \<noteq> []
      else (case subWheels w i of None \<Rightarrow> False | Some child \<Rightarrow> holdsEntry child))"

primrec faithful :: "Wheel \<Rightarrow> bool" where
  "faithful (Wheel l b es sws) =
     list_all (\<lambda>i. bit b i = slotNonEmpty (Wheel l b es sws) i
                   \<and> (l = 0 \<or> (case map_option faithful (sws i) of None \<Rightarrow> True | Some r \<Rightarrow> r)))
       [0..<SlotSize]"

text \<open>
  \<open>wheel_ok\<close>: the shape of the wheels that the operations build from \<^verbatim>\<open>NewWheel\<close>. The level
  is in \<open>0..MaxLevel\<close>; at level 0 a bit is set exactly over a non-nil chain; above, a bit is
  set exactly over a non-nil child, and a child is one level lower, has a non-zero bitmap
  and is of that shape itself.
\<close>

primrec wheel_ok :: "Wheel \<Rightarrow> bool" where
  "wheel_ok (Wheel l b es sws) =
     (0 \<le> l \<and> l \<le> MaxLevel
      \<and> list_all (\<lambda>i. if l = 0 then bit b i = (es i \<noteq> [])
                       else (case sws i of
                               None \<Rightarrow> \<not> bit b i
                             | Some child \<Rightarrow>
                                 bit b i \<and> level child = l - 1 \<and> bitmap child \<noteq> 0)
                            \<and> (case map_option wheel_ok (sws i) of
                                  None \<Rightarrow> True | Some r \<Rightarrow> r))
          [0..<SlotSize])"

lemma holdsEntry_iff:
  "holdsEntry w \<longleftrightarrow>
     (\<exists>i<64. if level w = 0 then entries w i \<noteq> []
             else (case subWheels w i of None \<Rightarrow> False | Some c \<Rightarrow> holdsEntry c))"
  by (cases w) (auto simp: list_ex_iff SlotSize_def SlotBits_def split: option.splits)

lemma faithful_iff:
  "faithful w \<longleftrightarrow>
     (\<forall>i<64. bit (bitmap w) i = slotNonEmpty w i
             \<and> (level w = 0 \<or> (case subWheels w i of None \<Rightarrow> True | Some c \<Rightarrow> faithful c)))"
proof (cases w)
  case (Wheel l b es sws)
  have "(case map_option faithful (sws i) of None \<Rightarrow> True | Some r \<Rightarrow> r)
        = (case sws i of None \<Rightarrow> True | Some c \<Rightarrow> faithful c)" for i
    by (cases "sws i") simp_all
  then show ?thesis
    using Wheel by (simp add: list_all_iff SlotSize_def SlotBits_def Ball_def)
qed

lemma wheel_ok_iff:
  "wheel_ok w \<longleftrightarrow>
     (0 \<le> level w \<and> level w \<le> 6
      \<and> (\<forall>i<64. if level w = 0 then bit (bitmap w) i = (entries w i \<noteq> [])
                 else (case subWheels w i of
                         None \<Rightarrow> \<not> bit (bitmap w) i
                       | Some c \<Rightarrow> bit (bitmap w) i \<and> level c = level w - 1
                                   \<and> bitmap c \<noteq> 0 \<and> wheel_ok c)))"
  by (cases w) (auto simp: list_all_iff SlotSize_def SlotBits_def MaxLevel_def split: option.splits)

lemma word_nonzero_bit: "(b :: u64) \<noteq> 0 \<longleftrightarrow> (\<exists>i<64. bit b i)"
proof
  assume "b \<noteq> 0"
  then obtain n where n: "bit b n" by (auto simp: bit_eq_iff)
  then have "n < 64" by (auto dest: bit_imp_le_length)
  with n show "\<exists>i<64. bit b i" by blast
next
  assume "\<exists>i<64. bit b i"
  then show "b \<noteq> 0" by auto
qed

lemma wheel_ok_holds: "wheel_ok w \<Longrightarrow> holdsEntry w \<longleftrightarrow> bitmap w \<noteq> 0"
proof (induction w)
  case (Wheel l b es sws)
  have ok: "wheel_ok (Wheel l b es sws)" by fact
  show ?case
  proof (cases "l = 0")
    case True
    with ok show ?thesis
      by (subst holdsEntry_iff, subst (asm) wheel_ok_iff) (auto simp: word_nonzero_bit)
  next
    case False
    have ch: "holdsEntry c" if "i < 64" "sws i = Some c" for i c
    proof -
      from ok that False have c: "wheel_ok c" "bitmap c \<noteq> 0"
        by (subst (asm) wheel_ok_iff, fastforce)+
      have "c \<in> set_option (sws i)" using that by simp
      from Wheel.IH [OF _ this c(1)] c(2) show ?thesis by simp
    qed
    have "holdsEntry (Wheel l b es sws) \<longleftrightarrow> (\<exists>i<64. sws i \<noteq> None)"
      using False ch by (subst holdsEntry_iff) (auto split: option.splits)
    also have "\<dots> \<longleftrightarrow> (\<exists>i<64. bit b i)"
      using ok False by (subst (asm) wheel_ok_iff) (fastforce split: option.splits)
    finally show ?thesis by (simp add: word_nonzero_bit)
  qed
qed

lemma wheel_ok_faithful: "wheel_ok w \<Longrightarrow> faithful w"
proof (induction w)
  case (Wheel l b es sws)
  have ok: "wheel_ok (Wheel l b es sws)" by fact
  show ?case
  proof (subst faithful_iff, intro allI impI conjI)
    fix i :: nat assume i: "i < 64"
    show "bit (bitmap (Wheel l b es sws)) i = slotNonEmpty (Wheel l b es sws) i"
    proof (cases "l = 0")
      case True
      with ok i show ?thesis
        by (subst (asm) wheel_ok_iff) (simp add: slotNonEmpty_def)
    next
      case False
      show ?thesis
      proof (cases "sws i")
        case None
        with ok i False show ?thesis
          by (subst (asm) wheel_ok_iff) (fastforce simp: slotNonEmpty_def)
      next
        case (Some c)
        with ok i False have c: "bit b i" "wheel_ok c" "bitmap c \<noteq> 0"
          by (subst (asm) wheel_ok_iff, fastforce)+
        then have "holdsEntry c" by (simp add: wheel_ok_holds)
        with c Some False show ?thesis by (simp add: slotNonEmpty_def)
      qed
    qed
    show "level (Wheel l b es sws) = 0
          \<or> (case subWheels (Wheel l b es sws) i of None \<Rightarrow> True | Some c \<Rightarrow> faithful c)"
    proof (cases "sws i")
      case None
      then show ?thesis by simp
    next
      case (Some c)
      show ?thesis
      proof (cases "l = 0")
        case True then show ?thesis by simp
      next
        case False
        with ok i Some have "wheel_ok c"
          by (subst (asm) wheel_ok_iff) fastforce
        moreover have "c \<in> set_option (sws i)" using Some by simp
        ultimately have "faithful c" using Wheel.IH by blast
        with Some show ?thesis by simp
      qed
    qed
  qed
qed

lemma wheel_ok_NewWheel: "0 \<le> l \<Longrightarrow> l \<le> 6 \<Longrightarrow> wheel_ok (NewWheel l)"
  by (subst wheel_ok_iff) (simp add: NewWheel_def)


lemma bit_set_slot:
  "i < 64 \<Longrightarrow> bit ((b :: u64) OR push_bit i 1) j \<longleftrightarrow> bit b j \<or> j = i"
  by (auto simp: bit_simps dest: bit_imp_le_length)

lemma bit_clear_slot:
  "bit ((b :: u64) AND NOT (push_bit i 1)) j \<longleftrightarrow> bit b j \<and> j \<noteq> i"
  by (auto simp: bit_simps dest: bit_imp_le_length)

lemma wheel_ok_level: "wheel_ok w \<Longrightarrow> 0 \<le> level w \<and> level w \<le> 6"
  by (subst (asm) wheel_ok_iff) simp

lemma wheel_ok_slot0:
  "wheel_ok w \<Longrightarrow> level w = 0 \<Longrightarrow> i < 64 \<Longrightarrow> bit (bitmap w) i = (entries w i \<noteq> [])"
  by (subst (asm) wheel_ok_iff) simp

lemma wheel_ok_nil:
  "wheel_ok w \<Longrightarrow> level w \<noteq> 0 \<Longrightarrow> i < 64 \<Longrightarrow> subWheels w i = None
   \<Longrightarrow> \<not> bit (bitmap w) i"
  by (subst (asm) wheel_ok_iff) fastforce

lemma wheel_ok_child:
  "wheel_ok w \<Longrightarrow> level w \<noteq> 0 \<Longrightarrow> i < 64 \<Longrightarrow> subWheels w i = Some c
   \<Longrightarrow> bit (bitmap w) i \<and> level c = level w - 1 \<and> bitmap c \<noteq> 0 \<and> wheel_ok c"
  by (subst (asm) wheel_ok_iff) fastforce

lemma wheel_ok_bit_child:
  "wheel_ok w \<Longrightarrow> level w \<noteq> 0 \<Longrightarrow> i < 64 \<Longrightarrow> bit (bitmap w) i
   \<Longrightarrow> \<exists>c. subWheels w i = Some c"
  using wheel_ok_nil by (cases "subWheels w i") auto

lemma wheel_ok_put_chain:
  assumes "wheel_ok w" and "level w = 0" and "i < 64"
    and "\<forall>j<64. bit b' j \<longleftrightarrow> (if j = i then chain \<noteq> [] else bit (bitmap w) j)"
  shows "wheel_ok (Wheel (level w) b' ((entries w)(i := chain)) (subWheels w))"
  using assms wheel_ok_slot0 [OF assms(1,2)]
  by (subst wheel_ok_iff) simp

lemma wheel_ok_put_child:
  assumes "wheel_ok w" and "level w \<noteq> 0" and "i < 64"
    and "wheel_ok c" and "level c = level w - 1" and "bitmap c \<noteq> 0"
    and "\<forall>j<64. bit b' j \<longleftrightarrow> bit (bitmap w) j \<or> j = i"
  shows "wheel_ok (Wheel (level w) b' (entries w) ((subWheels w)(i := Some c)))"
proof (subst wheel_ok_iff, intro conjI allI impI)
  fix j :: nat assume j: "j < 64"
  let ?w = "Wheel (level w) b' (entries w) ((subWheels w)(i := Some c))"
  show "if level ?w = 0 then bit (bitmap ?w) j = (entries ?w j \<noteq> [])
        else (case subWheels ?w j of
                None \<Rightarrow> \<not> bit (bitmap ?w) j
              | Some c \<Rightarrow> bit (bitmap ?w) j \<and> level c = level ?w - 1
                          \<and> bitmap c \<noteq> 0 \<and> wheel_ok c)"
  proof (cases "j = i")
    case True
    with assms j show ?thesis by simp
  next
    case False
    show ?thesis
    proof (cases "subWheels w j")
      case None
      with False assms j wheel_ok_nil [OF assms(1,2) j] show ?thesis by simp
    next
      case (Some d)
      with False assms j wheel_ok_child [OF assms(1,2) j Some] show ?thesis by simp
    qed
  qed
qed (use assms wheel_ok_level in auto)

lemma wheel_ok_drop_child:
  assumes "wheel_ok w" and "level w \<noteq> 0" and "i < 64"
    and "\<forall>j<64. bit b' j \<longleftrightarrow> bit (bitmap w) j \<and> j \<noteq> i"
  shows "wheel_ok (Wheel (level w) b' (entries w) ((subWheels w)(i := None)))"
proof (subst wheel_ok_iff, intro conjI allI impI)
  fix j :: nat assume j: "j < 64"
  let ?w = "Wheel (level w) b' (entries w) ((subWheels w)(i := None))"
  show "if level ?w = 0 then bit (bitmap ?w) j = (entries ?w j \<noteq> [])
        else (case subWheels ?w j of
                None \<Rightarrow> \<not> bit (bitmap ?w) j
              | Some c \<Rightarrow> bit (bitmap ?w) j \<and> level c = level ?w - 1
                          \<and> bitmap c \<noteq> 0 \<and> wheel_ok c)"
  proof (cases "j = i")
    case True
    with assms j show ?thesis by simp
  next
    case False
    show ?thesis
    proof (cases "subWheels w j")
      case None
      with False assms j wheel_ok_nil [OF assms(1,2) j] show ?thesis by simp
    next
      case (Some d)
      with False assms j wheel_ok_child [OF assms(1,2) j Some] show ?thesis by simp
    qed
  qed
qed (use assms wheel_ok_level in auto)

lemma getIndex_total:
  "wheel_ok w \<Longrightarrow> \<exists>index. getIndex w d = Some index \<and> unat index < 64"
  using getIndex_eq [of w d] getIndex_bound [of w d] wheel_ok_level [of w] by auto

lemma AddEntry_ok:
  "wheel_ok w \<Longrightarrow>
   \<exists>w'. AddEntry w entry interval = Some w' \<and> wheel_ok w' \<and> level w' = level w
        \<and> bitmap w' \<noteq> 0"
proof (induction w entry interval rule: AddEntry.induct)
  case (1 w entry interval)
  have ok: "wheel_ok w" by fact
  from getIndex_total [OF ok] obtain index where
    gi: "getIndex w interval = Some index" and lt: "unat index < 64" by blast
  let ?i = "unat index"
  let ?b = "bitmap w OR push_bit ?i 1"
  have bset: "\<forall>j<64. bit ?b j \<longleftrightarrow> bit (bitmap w) j \<or> j = ?i"
    using lt bit_set_slot by blast
  have nz: "?b \<noteq> 0" using bset lt by (auto simp: word_nonzero_bit)
  show ?case
  proof (cases "level w = 0")
    case True
    have "wheel_ok (Wheel (level w) ?b ((entries w)(?i := entry # entries w ?i)) (subWheels w))"
      by (rule wheel_ok_put_chain [OF ok True lt]) (use bset in simp)
    with True gi nz show ?thesis by (simp add: AddEntry.simps [of w])
  next
    case False
    show ?thesis
    proof (cases "subWheels w ?i")
      case None
      have "1 \<le> level w" "level w \<le> 6" using wheel_ok_level [OF ok] False by auto
      then have "wheel_ok (NewWheel (level w - 1))" by (intro wheel_ok_NewWheel) auto
      from "1.IH"(1) [OF gi False None this] obtain child where
        c: "AddEntry (NewWheel (level w - 1)) entry interval = Some child" "wheel_ok child"
           "level child = level w - 1" "bitmap child \<noteq> 0"
        by (auto simp: NewWheel_def)
      have "wheel_ok (Wheel (level w) ?b (entries w) ((subWheels w)(?i := Some child)))"
        by (rule wheel_ok_put_child [OF ok False lt c(2,3,4)]) (use bset in simp)
      with False gi None c nz show ?thesis by (simp add: AddEntry.simps [of w])
    next
      case (Some child0)
      from wheel_ok_child [OF ok False lt Some] have
        c0: "bit (bitmap w) ?i" "wheel_ok child0" "level child0 = level w - 1" by auto
      from "1.IH"(2) [OF gi False Some c0(2)] obtain child where
        c: "AddEntry child0 entry interval = Some child" "wheel_ok child"
           "level child = level w - 1" "bitmap child \<noteq> 0"
        using c0(3) by auto
      have "wheel_ok (Wheel (level w) (bitmap w) (entries w) ((subWheels w)(?i := Some child)))"
        by (rule wheel_ok_put_child [OF ok False lt c(2,3,4)]) (use c0 in auto)
      moreover have "bitmap w \<noteq> 0" using c0(1) lt by (auto simp: word_nonzero_bit)
      ultimately show ?thesis using False gi Some c by (simp add: AddEntry.simps [of w])
    qed
  qed
qed

subsection \<open>The operations keep the shape\<close>

lemma unlinkAfter_nonempty: "unlinkAfter entry chain = Some chain' \<Longrightarrow> chain' \<noteq> []"
  by (induction entry chain rule: unlinkAfter.induct) (auto split: if_splits)

lemma RemoveEntry_ok:
  "wheel_ok w \<Longrightarrow> RemoveEntry w entry interval = Some w'
   \<Longrightarrow> wheel_ok w' \<and> level w' = level w"
proof (induction w entry interval arbitrary: w' rule: RemoveEntry.induct)
  case (1 w entry interval)
  have ok: "wheel_ok w" by fact
  have rm: "RemoveEntry w entry interval = Some w'" by fact
  from getIndex_total [OF ok] obtain index where
    gi: "getIndex w interval = Some index" and lt: "unat index < 64" by blast
  let ?i = "unat index"
  let ?b = "bitmap w AND NOT (push_bit ?i 1)"
  have bclr: "\<forall>j<64. bit ?b j \<longleftrightarrow> bit (bitmap w) j \<and> j \<noteq> ?i"
    using bit_clear_slot by blast
  show ?case
  proof (cases "level w = 0")
    case l0: True
    show ?thesis
    proof (cases "entries w ?i")
      case Nil
      with rm gi l0 show ?thesis by (simp add: RemoveEntry.simps [of w])
    next
      case (Cons head rest)
      have bs: "bit (bitmap w) ?i" using wheel_ok_slot0 [OF ok l0 lt] Cons by simp
      show ?thesis
      proof (cases "head = entry")
        case True
        let ?b' = "if rest = [] then ?b else bitmap w"
        have w': "w' = Wheel (level w) ?b' ((entries w)(?i := rest)) (subWheels w)"
          using rm gi l0 Cons True by (simp add: RemoveEntry.simps [of w])
        have "wheel_ok (Wheel (level w) ?b' ((entries w)(?i := rest)) (subWheels w))"
          by (rule wheel_ok_put_chain [OF ok l0 lt]) (use bclr bs in auto)
        with w' show ?thesis by simp
      next
        case False
        with rm gi l0 Cons obtain chain where
          ch: "unlinkAfter entry (head # rest) = Some chain"
          and w': "w' = Wheel (level w) (bitmap w) ((entries w)(?i := chain)) (subWheels w)"
          by (auto simp: RemoveEntry.simps [of w] split: option.splits)
        have "chain \<noteq> []" using ch by (rule unlinkAfter_nonempty)
        then have "wheel_ok (Wheel (level w) (bitmap w) ((entries w)(?i := chain)) (subWheels w))"
          by (intro wheel_ok_put_chain [OF ok l0 lt]) (use bs in auto)
        with w' show ?thesis by simp
      qed
    qed
  next
    case ln: False
    from rm gi ln obtain child0 where c0: "subWheels w ?i = Some child0"
      by (auto simp: RemoveEntry.simps [of w] split: option.splits)
    from rm gi ln c0 obtain child where c: "RemoveEntry child0 entry interval = Some child"
      by (auto simp: RemoveEntry.simps [of w] split: option.splits)
    from wheel_ok_child [OF ok ln lt c0] have
      k: "bit (bitmap w) ?i" "wheel_ok child0" "level child0 = level w - 1" by auto
    from "1.IH" [OF gi ln c0 k(2) c] have ck: "wheel_ok child" "level child = level w - 1"
      using k(3) by auto
    show ?thesis
    proof (cases "Empty child")
      case True
      then have w': "w' = Wheel (level w) ?b (entries w) ((subWheels w)(?i := None))"
        using rm gi ln c0 c by (simp add: RemoveEntry.simps [of w])
      have "wheel_ok (Wheel (level w) ?b (entries w) ((subWheels w)(?i := None)))"
        by (rule wheel_ok_drop_child [OF ok ln lt]) (use bclr in simp)
      with w' show ?thesis by simp
    next
      case False
      then have w': "w' = Wheel (level w) (bitmap w) (entries w) ((subWheels w)(?i := Some child))"
        using rm gi ln c0 c by (simp add: RemoveEntry.simps [of w])
      have "bitmap child \<noteq> 0" using False by (simp add: Empty_def)
      then have "wheel_ok (Wheel (level w) (bitmap w) (entries w)
                   ((subWheels w)(?i := Some child)))"
        by (intro wheel_ok_put_child [OF ok ln lt ck]) (use k in auto)
      with w' show ?thesis by simp
    qed
  qed
qed

lemma loop_ok:
  "wheel_ok w \<Longrightarrow>
   \<exists>w' n s'. HandleExpiredEntries_loop handler w r c s = Some (w', n, s')
             \<and> wheel_ok w' \<and> level w' = level w"
proof (induction handler w r c s rule: HandleExpiredEntries_loop.induct)
  case (1 handler w r c s)
  have ok: "wheel_ok w" by fact
  show ?case
  proof (cases "bitmap w = 0")
    case True
    with ok show ?thesis by (simp add: HandleExpiredEntries_loop.simps [of handler w])
  next
    case nz: False
    define index :: u64 where "index = word_of_nat (TrailingZeros64 (bitmap w))"
    let ?i = "unat index"
    have i: "?i = TrailingZeros64 (bitmap w)" by (simp add: index_def unat_TrailingZeros64)
    have lt: "?i < 64" and bs: "bit (bitmap w) ?i"
      using TrailingZeros64_props [OF nz] i by auto
    let ?b = "bitmap w AND NOT (push_bit ?i 1)"
    have bclr: "\<forall>j<64. bit ?b j \<longleftrightarrow> bit (bitmap w) j \<and> j \<noteq> ?i"
      using bit_clear_slot by blast
    show ?thesis
    proof (cases "level w = 0")
      case l0: True
      show ?thesis
      proof (cases "index > r")
        case True
        with ok nz l0 show ?thesis
          by (simp add: HandleExpiredEntries_loop.simps [of handler w] index_def)
      next
        case False
        let ?w1 = "Wheel (level w) ?b ((entries w)(?i := [])) (subWheels w)"
        obtain c1 s1 where f: "fireSlot handler (entries w ?i) c s = (c1, s1)"
          by (cases "fireSlot handler (entries w ?i) c s")
        have ok1: "wheel_ok ?w1"
          by (rule wheel_ok_put_chain [OF ok l0 lt]) (use bclr in simp)
        from "1.IH"(1) [OF nz index_def l0 False f [symmetric] ok1]
        obtain w' n s' where "HandleExpiredEntries_loop handler ?w1 r c1 s1 = Some (w', n, s')"
          "wheel_ok w'" "level w' = level w" by auto
        with nz l0 False f show ?thesis
          by (simp add: HandleExpiredEntries_loop.simps [of handler w] index_def Let_def)
      qed
    next
      case ln: False
      from wheel_ok_level [OF ok] have "tbl msPerSlot (level w) = Some (64 ^ nat (level w))"
        by (intro tbl_msPerSlot) auto
      then obtain mps where mps: "tbl msPerSlot (level w) = Some mps" by blast
      define slotMs where "slotMs = index * mps"
      show ?thesis
      proof (cases "slotMs > r")
        case True
        with ok nz ln mps show ?thesis
          by (simp add: HandleExpiredEntries_loop.simps [of handler w] index_def slotMs_def
                Let_def)
      next
        case False
        from wheel_ok_bit_child [OF ok ln lt bs] obtain child0 where
          c0: "subWheels w ?i = Some child0" by blast
        from wheel_ok_child [OF ok ln lt c0] have
          k: "wheel_ok child0" "level child0 = level w - 1" by auto
        from "1.IH"(2) [OF nz index_def ln mps slotMs_def False c0 k(1)]
        obtain child m s1 where
          rec: "HandleExpiredEntries_loop handler child0 (r - slotMs) 0 s = Some (child, m, s1)"
          and ck: "wheel_ok child" "level child = level w - 1"
          using k(2) by auto
        show ?thesis
        proof (cases "Empty child")
          case True
          let ?w1 = "Wheel (level w) ?b (entries w) ((subWheels w)(?i := None))"
          have ok1: "wheel_ok ?w1"
            by (rule wheel_ok_drop_child [OF ok ln lt]) (use bclr in simp)
          from "1.IH"(3) [OF nz index_def ln mps slotMs_def False c0 rec refl refl True ok1]
          obtain w' n s' where
            "HandleExpiredEntries_loop handler ?w1 r (c + m) s1 = Some (w', n, s')"
            "wheel_ok w'" "level w' = level w" by auto
          with nz ln mps False c0 rec True show ?thesis
            by (simp add: HandleExpiredEntries_loop.simps [of handler w] index_def slotMs_def
                  Let_def)
        next
          case ne: False
          then have "bitmap child \<noteq> 0" by (simp add: Empty_def)
          then have "wheel_ok (Wheel (level w) (bitmap w) (entries w)
                       ((subWheels w)(?i := Some child)))"
            by (intro wheel_ok_put_child [OF ok ln lt ck]) (use bs in auto)
          with nz ln mps False c0 rec ne show ?thesis
            by (simp add: HandleExpiredEntries_loop.simps [of handler w] index_def slotMs_def
                  Let_def)
        qed
      qed
    qed
  qed
qed

text \<open>
  What the loop of \<^verbatim>\<open>Rotate\<close> leaves in each slot, for \<open>0 < n < 64\<close>: slot \<open>j\<close> receives slot
  \<open>j + n\<close> when that exists; otherwise it is cleared when \<open>n \<le> j\<close>, and keeps its old
  content when \<open>j < n\<close>, since the loop starts at \<open>n\<close> and only writes \<open>i - n\<close> and \<open>i\<close>.
\<close>

lemma rotateLoop_nth:
  "0 < n \<Longrightarrow> n \<le> i \<Longrightarrow>
   rotateLoop n i nil slots j =
     (if i - n \<le> j \<and> j + n < 64 then slots (j + n)
      else if i \<le> j \<and> j < 64 then nil else slots j)"
proof (induction n i nil slots rule: rotateLoop.induct)
  case (1 n i nil slots)
  show ?case
  proof (cases "i < 64")
    case True
    then have "rotateLoop n i nil slots j
               = rotateLoop n (i + 1) nil (slots(i - n := slots i, i := nil)) j"
      by (subst rotateLoop.simps) (simp add: SlotSize_def SlotBits_def)
    also have "\<dots> = (if i + 1 - n \<le> j \<and> j + n < 64
                      then (slots(i - n := slots i, i := nil)) (j + n)
                      else if i + 1 \<le> j \<and> j < 64 then nil
                      else (slots(i - n := slots i, i := nil)) j)"
      by (rule "1.IH") (use True "1.prems" in \<open>auto simp: SlotSize_def SlotBits_def\<close>)
    also have "\<dots> = (if i - n \<le> j \<and> j + n < 64 then slots (j + n)
                      else if i \<le> j \<and> j < 64 then nil else slots j)"
      using True "1.prems" by auto
    finally show ?thesis .
  next
    case False
    then show ?thesis
      by (subst rotateLoop.simps) (auto simp: SlotSize_def SlotBits_def)
  qed
qed

lemma rotateLoop_full:
  assumes "0 < n" and "n < 64"
  shows "rotateLoop n n nil slots =
         (\<lambda>j. if j + n < 64 then slots (j + n)
               else if n \<le> j \<and> j < 64 then nil else slots j)"
  using assms by (intro ext) (simp add: rotateLoop_nth)

lemma Rotate_slots:
  assumes "0 < unat n" and "unat n < 64"
  shows "Rotate n w =
     (if level w = 0 then
        Wheel (level w) (drop_bit (unat n) (bitmap w))
          (\<lambda>j. if j + unat n < 64 then entries w (j + unat n)
                else if unat n \<le> j \<and> j < 64 then [] else entries w j)
          (subWheels w)
      else
        Wheel (level w) (drop_bit (unat n) (bitmap w)) (entries w)
          (\<lambda>j. if j + unat n < 64 then subWheels w (j + unat n)
                else if unat n \<le> j \<and> j < 64 then None else subWheels w j))"
proof -
  have n: "n \<noteq> 0" "\<not> n \<ge> word_of_nat SlotSize"
    using assms by (auto simp: SlotSize_def SlotBits_def word_le_nat_alt)
  show ?thesis using n by (simp add: Rotate_def rotateLoop_full [OF assms])
qed

lemma wheel_ok_zeroI:
  assumes "\<And>j. j < 64 \<Longrightarrow> bit b j = (es j \<noteq> [])"
  shows "wheel_ok (Wheel 0 b es sws)"
  using assms by (subst wheel_ok_iff) simp

lemma wheel_ok_aboveI:
  assumes "0 < l" and "l \<le> 6"
    and "\<And>j. j < 64 \<Longrightarrow>
           (case sws j of
              None \<Rightarrow> \<not> bit b j
            | Some c \<Rightarrow> bit b j \<and> level c = l - 1 \<and> bitmap c \<noteq> 0 \<and> wheel_ok c)"
  shows "wheel_ok (Wheel l b es sws)"
proof (subst wheel_ok_iff, intro conjI allI impI)
  fix i :: nat assume "i < 64"
  from assms(3) [OF this] assms(1)
  show "if level (Wheel l b es sws) = 0
        then bit (bitmap (Wheel l b es sws)) i = (entries (Wheel l b es sws) i \<noteq> [])
        else (case subWheels (Wheel l b es sws) i of
                None \<Rightarrow> \<not> bit (bitmap (Wheel l b es sws)) i
              | Some c \<Rightarrow> bit (bitmap (Wheel l b es sws)) i
                          \<and> level c = level (Wheel l b es sws) - 1
                          \<and> bitmap c \<noteq> 0 \<and> wheel_ok c)"
    by (cases "sws i") auto
qed (use assms in auto)

lemma Rotate_id: "n = 0 \<or> 64 \<le> n \<Longrightarrow> Rotate n w = w"
  by (auto simp: Rotate_def SlotSize_def SlotBits_def)

lemma Rotate_ok:
  assumes ok: "wheel_ok w"
    and st: "\<forall>i. 64 - unat n \<le> i \<and> i < unat n \<and> i < 64 \<longrightarrow> \<not> bit (bitmap w) i"
  shows "wheel_ok (Rotate n w)"
proof (cases "n = 0 \<or> 64 \<le> n")
  case True
  with ok show ?thesis by (simp add: Rotate_id)
next
  case False
  then have n: "0 < unat n" "unat n < 64"
    by (auto simp: word_le_nat_alt unat_gt_0)
  let ?n = "unat n"
  have bits: "bit (drop_bit ?n (bitmap w)) j \<longleftrightarrow> bit (bitmap w) (j + ?n)" for j
    by (simp add: bit_simps add.commute)
  have hi: "\<not> bit (bitmap w) j" if "64 \<le> j" for j
    using that by (auto dest: bit_imp_le_length)
  have lv: "0 \<le> level w \<and> level w \<le> 6" using wheel_ok_level [OF ok] .
  show ?thesis
  proof (cases "level w = 0")
    case l0: True
    let ?es = "\<lambda>j. if j + ?n < 64 then entries w (j + ?n)
                    else if ?n \<le> j \<and> j < 64 then [] else entries w j"
    have key: "bit (drop_bit ?n (bitmap w)) j = (?es j \<noteq> [])" if j: "j < 64" for j
    proof (cases "j + ?n < 64")
      case True
      then show ?thesis using wheel_ok_slot0 [OF ok l0 True] by (simp add: bits)
    next
      case False
      then have nb: "\<not> bit (bitmap w) (j + ?n)" using hi by simp
      show ?thesis
      proof (cases "?n \<le> j")
        case True
        with False j nb show ?thesis by (simp add: bits)
      next
        case F2: False
        then have "\<not> bit (bitmap w) j" using st False j by auto
        then have "entries w j = []" using wheel_ok_slot0 [OF ok l0 j] by simp
        with False F2 nb show ?thesis by (simp add: bits)
      qed
    qed
    have "wheel_ok (Wheel 0 (drop_bit ?n (bitmap w)) ?es (subWheels w))"
      by (rule wheel_ok_zeroI) (rule key)
    then show ?thesis by (simp add: Rotate_slots [OF n] l0)
  next
    case ln: False
    let ?sw = "\<lambda>j. if j + ?n < 64 then subWheels w (j + ?n)
                    else if ?n \<le> j \<and> j < 64 then None else subWheels w j"
    have key: "case ?sw j of
                 None \<Rightarrow> \<not> bit (drop_bit ?n (bitmap w)) j
               | Some c \<Rightarrow> bit (drop_bit ?n (bitmap w)) j \<and> level c = level w - 1
                           \<and> bitmap c \<noteq> 0 \<and> wheel_ok c" if j: "j < 64" for j
    proof (cases "j + ?n < 64")
      case True
      show ?thesis
      proof (cases "subWheels w (j + ?n)")
        case None
        with True wheel_ok_nil [OF ok ln True None] show ?thesis by (simp add: bits)
      next
        case (Some c)
        with True wheel_ok_child [OF ok ln True Some] show ?thesis by (simp add: bits)
      qed
    next
      case False
      then have nb: "\<not> bit (bitmap w) (j + ?n)" using hi by simp
      show ?thesis
      proof (cases "?n \<le> j")
        case True
        with False j nb show ?thesis by (simp add: bits)
      next
        case F2: False
        then have "\<not> bit (bitmap w) j" using st False j by auto
        then have "subWheels w j = None"
          using wheel_ok_child [OF ok ln j] by (cases "subWheels w j") auto
        with False F2 nb show ?thesis by (simp add: bits)
      qed
    qed
    have "wheel_ok (Wheel (level w) (drop_bit ?n (bitmap w)) (entries w) ?sw)"
      by (rule wheel_ok_aboveI) (use lv ln key in auto)
    then show ?thesis by (simp add: Rotate_slots [OF n] ln)
  qed
qed

lemma LevelUp_ok:
  assumes "wheel_ok w" and "bitmap w \<noteq> 0" and "level w < MaxLevel"
  shows "wheel_ok (LevelUp w)"
proof -
  have "bit (1 :: u64) i \<longleftrightarrow> i = 0" for i by (simp add: bit_simps)
  then show ?thesis
    using assms wheel_ok_level [OF assms(1)]
    by (subst wheel_ok_iff) (simp add: LevelUp_def NewWheelWithChild_def MaxLevel_def)
qed

lemma LevelDown_ok: "wheel_ok w \<Longrightarrow> LevelDown w = Some c \<Longrightarrow> wheel_ok c"
  using wheel_ok_child [of w 0 c] by (auto simp: LevelDown_def split: if_splits)


subsection \<open>Two wheels where faithfulness is lost\<close>

text \<open>
  \<open>slot30Wheel\<close> is the level-0 wheel that \<^verbatim>\<open>AddEntry\<close> builds from an empty one with entry 7
  at interval 30.
\<close>

definition slot30Wheel :: Wheel where
  "slot30Wheel = Wheel 0 (push_bit 30 1) ((\<lambda>i. [])(30 := [7])) (\<lambda>i. None)"

lemma slot30_built: "AddEntry (NewWheel 0) 7 30 = Some slot30Wheel"
  by (simp add: AddEntry.simps NewWheel_def getIndex_def SlotMask_def slot30Wheel_def)

lemma slot30_ok: "wheel_ok slot30Wheel"
proof -
  have "wheel_ok (NewWheel 0)" by (simp add: wheel_ok_NewWheel)
  from AddEntry_ok [OF this, of 7 30] show ?thesis by (simp add: slot30_built)
qed

lemma empty_holds_nothing: "\<not> holdsEntry (NewWheel l)"
  by (subst holdsEntry_iff) (simp add: NewWheel_def)

lemma LevelUp_empty_unfaithful: "\<not> faithful (LevelUp (NewWheel 0))"
proof
  assume "faithful (LevelUp (NewWheel 0))"
  then have "bit (bitmap (LevelUp (NewWheel 0))) 0 = slotNonEmpty (LevelUp (NewWheel 0)) 0"
    by (subst (asm) faithful_iff) simp
  then show False
    using empty_holds_nothing [of 0]
    by (simp add: LevelUp_def NewWheelWithChild_def slotNonEmpty_def NewWheel_def)
qed

lemma Rotate40_slot30:
  "bitmap (Rotate 40 slot30Wheel) = 0 \<and> entries (Rotate 40 slot30Wheel) 30 = [7]
   \<and> level (Rotate 40 slot30Wheel) = 0"
proof -
  have "drop_bit 40 (push_bit 30 1 :: u64) = 0" by simp
  then show ?thesis
    by (subst Rotate_slots, simp, simp)+ (simp add: slot30Wheel_def)
qed

lemma Rotate40_unfaithful: "\<not> faithful (Rotate 40 slot30Wheel)"
proof
  assume "faithful (Rotate 40 slot30Wheel)"
  then have "bit (bitmap (Rotate 40 slot30Wheel)) 30 = slotNonEmpty (Rotate 40 slot30Wheel) 30"
    by (subst (asm) faithful_iff) simp
  then show False using Rotate40_slot30 by (simp add: slotNonEmpty_def)
qed

lemma Rotate40_holds: "holdsEntry (Rotate 40 slot30Wheel)"
  using Rotate40_slot30 by (subst holdsEntry_iff) (auto intro: exI [of _ 30])

text \<open>
  The invariant does not survive every call. \<^verbatim>\<open>LevelUp\<close> of the empty wheel sets bit 0 over
  an empty child. \<^verbatim>\<open>Rotate(40)\<close> of \<open>slot30Wheel\<close> shifts the bitmap to zero and leaves the
  chain of slot 30 where it was: the bitmap is zero and the wheel holds an entry.
\<close>

theorem bitmap_faithful_counterexample:
  "faithful (NewWheel 0) \<and> \<not> faithful (LevelUp (NewWheel 0))
   \<and> AddEntry (NewWheel 0) 7 30 = Some slot30Wheel \<and> faithful slot30Wheel
   \<and> \<not> faithful (Rotate 40 slot30Wheel)
   \<and> bitmap (Rotate 40 slot30Wheel) = 0 \<and> holdsEntry (Rotate 40 slot30Wheel)"
  using LevelUp_empty_unfaithful Rotate40_unfaithful Rotate40_holds Rotate40_slot30
    slot30_built wheel_ok_faithful [OF slot30_ok]
    wheel_ok_faithful [OF wheel_ok_NewWheel [of 0]]
  by simp

text \<open>
  C2, amended. For every wheel of the shape \<open>wheel_ok\<close>, which \<^verbatim>\<open>NewWheel\<close> establishes for the
  levels \<open>0..MaxLevel\<close>: bit \<open>i\<close> of the bitmap is set exactly when slot \<open>i\<close> is non-empty, in
  the wheel and in every wheel below it, and the bitmap is zero exactly when the wheel
  holds no entry. The shape, and with it the invariant, is kept by \<^verbatim>\<open>AddEntry\<close> (which
  returns), by \<^verbatim>\<open>RemoveEntry\<close> when it returns, by \<^verbatim>\<open>HandleExpiredEntries\<close> (which returns),
  by \<^verbatim>\<open>LevelDown\<close>, by \<^verbatim>\<open>LevelUp\<close> of a non-empty wheel below \<^verbatim>\<open>MaxLevel\<close>, and by
  \<^verbatim>\<open>Rotate(n)\<close> when \<open>n = 0\<close>, \<open>n \<ge> 64\<close>, or the slots \<open>64 - n \<le> i < n\<close>, which its loop
  neither overwrites nor clears, are empty.
\<close>

theorem bitmap_faithful:
  assumes "wheel_ok w"
  shows "faithful w \<and> (bitmap w = 0 \<longleftrightarrow> \<not> holdsEntry w)
    \<and> (\<exists>w'. AddEntry w entry interval = Some w' \<and> wheel_ok w' \<and> faithful w')
    \<and> (\<forall>w'. RemoveEntry w entry interval = Some w' \<longrightarrow> wheel_ok w' \<and> faithful w')
    \<and> (\<exists>w' k s'. HandleExpiredEntries handler w remainingMs s = Some (w', k, s')
                   \<and> wheel_ok w' \<and> faithful w')
    \<and> (n = 0 \<or> 64 \<le> n \<or> (\<forall>i. 64 - unat n \<le> i \<and> i < unat n \<longrightarrow> \<not> bit (bitmap w) i)
         \<longrightarrow> wheel_ok (Rotate n w) \<and> faithful (Rotate n w))
    \<and> (bitmap w \<noteq> 0 \<and> level w < MaxLevel
         \<longrightarrow> wheel_ok (LevelUp w) \<and> faithful (LevelUp w))
    \<and> (\<forall>c. LevelDown w = Some c \<longrightarrow> wheel_ok c \<and> faithful c)
    \<and> (0 \<le> l \<and> l \<le> MaxLevel \<longrightarrow> wheel_ok (NewWheel l) \<and> faithful (NewWheel l))"
proof (intro conjI allI impI)
  show "faithful w" using assms by (rule wheel_ok_faithful)
  show "bitmap w = 0 \<longleftrightarrow> \<not> holdsEntry w" using wheel_ok_holds [OF assms] by simp
  show "\<exists>w'. AddEntry w entry interval = Some w' \<and> wheel_ok w' \<and> faithful w'"
    using AddEntry_ok [OF assms, of entry interval] wheel_ok_faithful by blast
  show "\<exists>w' k s'. HandleExpiredEntries handler w remainingMs s = Some (w', k, s')
                  \<and> wheel_ok w' \<and> faithful w'"
    using loop_ok [OF assms, of handler remainingMs 0 s] wheel_ok_faithful
    unfolding HandleExpiredEntries_def by blast
next
  fix w' assume "RemoveEntry w entry interval = Some w'"
  from RemoveEntry_ok [OF assms this] show "wheel_ok w'" "faithful w'"
    using wheel_ok_faithful by auto
next
  assume r: "n = 0 \<or> 64 \<le> n \<or> (\<forall>i. 64 - unat n \<le> i \<and> i < unat n \<longrightarrow> \<not> bit (bitmap w) i)"
  have "wheel_ok (Rotate n w)"
  proof (cases "n = 0 \<or> 64 \<le> n")
    case True
    then show ?thesis using assms by (simp add: Rotate_id)
  next
    case False
    with r show ?thesis by (intro Rotate_ok [OF assms]) auto
  qed
  then show "wheel_ok (Rotate n w)" "faithful (Rotate n w)"
    using wheel_ok_faithful by auto
next
  assume "bitmap w \<noteq> 0 \<and> level w < MaxLevel"
  then have "wheel_ok (LevelUp w)" using LevelUp_ok [OF assms] by simp
  then show "wheel_ok (LevelUp w)" "faithful (LevelUp w)"
    using wheel_ok_faithful by auto
next
  fix c assume "LevelDown w = Some c"
  from LevelDown_ok [OF assms this] show "wheel_ok c" "faithful c"
    using wheel_ok_faithful by auto
next
  assume "0 \<le> l \<and> l \<le> MaxLevel"
  then have "wheel_ok (NewWheel l)" by (simp add: wheel_ok_NewWheel MaxLevel_def)
  then show "wheel_ok (NewWheel l)" "faithful (NewWheel l)"
    using wheel_ok_faithful by auto
qed

lemma parent_ok: "wheel_ok (LevelUp slot30Wheel)"
  by (rule LevelUp_ok [OF slot30_ok]) (simp_all add: slot30Wheel_def MaxLevel_def)

lemma parent_bits: "bit (bitmap (LevelUp slot30Wheel)) i \<longleftrightarrow> i = 0"
  by (simp add: LevelUp_def NewWheelWithChild_def bit_simps)

lemma parent_remove:
  "RemoveEntry (LevelUp slot30Wheel) 7 30 = Some (NewWheel 1)"
  by (simp add: RemoveEntry.simps LevelUp_def NewWheelWithChild_def slot30Wheel_def
        getIndex_def tbl_def mask_t_def shift_def SlotMask_def Empty_def NewWheel_def)

theorem bitmap_faithful_witness:
  "wheel_ok (LevelUp slot30Wheel) \<and> faithful (LevelUp slot30Wheel)
   \<and> (\<exists>w'. AddEntry (LevelUp slot30Wheel) 8 100 = Some w' \<and> wheel_ok w' \<and> faithful w')
   \<and> RemoveEntry (LevelUp slot30Wheel) 7 30 = Some (NewWheel 1) \<and> faithful (NewWheel 1)
   \<and> (\<exists>w' k s'. HandleExpiredEntries (\<lambda>e log. log @ [e]) (LevelUp slot30Wheel) 30 []
                     = Some (w', k, s') \<and> faithful w')
   \<and> faithful (Rotate 40 (LevelUp slot30Wheel))
   \<and> faithful (LevelUp (LevelUp slot30Wheel))
   \<and> LevelDown (LevelUp slot30Wheel) = Some slot30Wheel \<and> faithful slot30Wheel"
proof -
  have st: "64 - unat (40 :: u64) \<le> i \<and> i < unat (40 :: u64)
            \<longrightarrow> \<not> bit (bitmap (LevelUp slot30Wheel)) i" for i
    by (auto simp: parent_bits)
  have up: "bitmap (LevelUp slot30Wheel) \<noteq> 0 \<and> level (LevelUp slot30Wheel) < MaxLevel"
    by (simp add: LevelUp_def NewWheelWithChild_def slot30Wheel_def MaxLevel_def)
  have down: "LevelDown (LevelUp slot30Wheel) = Some slot30Wheel"
    by (simp add: LevelDown_def LevelUp_def NewWheelWithChild_def slot30Wheel_def)
  from bitmap_faithful [OF parent_ok, of 8 100 "\<lambda>e log. log @ [e]" 30 "[]" 40 1]
  have a: "(\<exists>w'. AddEntry (LevelUp slot30Wheel) 8 100 = Some w' \<and> wheel_ok w' \<and> faithful w')"
    and h: "(\<exists>w' k s'. HandleExpiredEntries (\<lambda>e log. log @ [e]) (LevelUp slot30Wheel) 30 []
                     = Some (w', k, s') \<and> faithful w')"
    and f: "faithful (LevelUp slot30Wheel)"
    and r: "faithful (Rotate 40 (LevelUp slot30Wheel))"
    and u: "faithful (LevelUp (LevelUp slot30Wheel))"
    and d: "faithful slot30Wheel"
    using st up down by blast+
  from bitmap_faithful [OF parent_ok, of 7 30 "\<lambda>e log. log @ [e]" 30 "[]" 40 1]
  have m: "faithful (NewWheel 1)" using parent_remove by blast
  from a h f r u d m parent_ok parent_remove down show ?thesis by blast
qed

section \<open>The MPSC queue\<close>

text \<open>
  The queue is one atomic head pointer. \<^verbatim>\<open>Push\<close> swaps the head and then stores the old head
  in the link of the entry; a completed push is both steps.
\<close>

record MPSCQueue =
  head :: "addr option"

definition NewMPSCQueue :: MPSCQueue where
  "NewMPSCQueue = \<lparr>head = None\<rparr>"

definition IsEmpty :: "MPSCQueue \<Rightarrow> bool" where
  "IsEmpty q = (head q = None)"

definition Push :: "MPSCQueue \<Rightarrow> addr \<Rightarrow> 's heap \<Rightarrow> bool \<times> MPSCQueue \<times> 's heap" where
  "Push q entry h =
     (let oldHead = head q;
          q1 = q\<lparr>head := Some entry\<rparr>;
          h1 = h(entry := (h entry)\<lparr>nxt := oldHead\<rparr>)
      in (oldHead = None, q1, h1))"

text \<open>
  \<^verbatim>\<open>PopAll\<close> takes the chain and reverses it in place. On a link that still holds the
  sentinel the code spins until the producer has stored the link; with no producer running
  the spin never ends, which is \<open>None\<close>. On a cyclic chain the loop does not end either.
\<close>

partial_function (option) reverseChain ::
  "'s heap \<Rightarrow> addr option \<Rightarrow> addr option \<Rightarrow> ('s heap \<times> addr option) option" where
  "reverseChain h prev cur =
     (case cur of
        None \<Rightarrow> Some (h, prev)
      | Some c \<Rightarrow>
          if nxt (h c) = Some settingNext then None
          else reverseChain (h(c := (h c)\<lparr>nxt := prev\<rparr>)) (Some c) (nxt (h c)))"

definition PopAll :: "MPSCQueue \<Rightarrow> 's heap \<Rightarrow> (addr option \<times> MPSCQueue \<times> 's heap) option" where
  "PopAll q h =
     (let hd0 = head q;
          q1 = q\<lparr>head := None\<rparr>
      in if hd0 = None then Some (None, q1, h)
         else (case reverseChain h None hd0 of
                 None \<Rightarrow> None
               | Some (h1, prev) \<Rightarrow> Some (prev, q1, h1)))"

text \<open>
  \<^verbatim>\<open>DrainAll\<close> walks the reversed chain. The function \<^verbatim>\<open>fn\<close> acts on the heap of the entries
  and on a state of the consumer; the link is read before \<^verbatim>\<open>fn\<close> is called, since \<^verbatim>\<open>fn\<close> may
  overwrite it.
\<close>

partial_function (option) drainLoop ::
  "(addr \<Rightarrow> 's heap \<times> 'w \<Rightarrow> 's heap \<times> 'w) \<Rightarrow> addr option \<Rightarrow> nat \<Rightarrow> 's heap \<times> 'w
   \<Rightarrow> (nat \<times> 's heap \<times> 'w) option" where
  "drainLoop fn hd0 count st =
     (case hd0 of
        None \<Rightarrow> Some (count, st)
      | Some e \<Rightarrow> drainLoop fn (nxt (fst st e)) (count + 1) (fn e st))"

definition DrainAll ::
  "MPSCQueue \<Rightarrow> (addr \<Rightarrow> 's heap \<times> 'w \<Rightarrow> 's heap \<times> 'w) \<Rightarrow> 's heap \<times> 'w
   \<Rightarrow> (nat \<times> MPSCQueue \<times> 's heap \<times> 'w) option" where
  "DrainAll q fn st =
     (case PopAll q (fst st) of
        None \<Rightarrow> None
      | Some (hd0, q1, h1) \<Rightarrow>
          (case drainLoop fn hd0 0 (h1, snd st) of
             None \<Rightarrow> None
           | Some (count, st1) \<Rightarrow> Some (count, q1, st1)))"

text \<open>
  \<open>pushAll\<close>: a sequence of completed pushes. \<open>chain h p as\<close>: following the links in \<open>h\<close>
  from \<open>p\<close> visits exactly the addresses \<open>as\<close> and ends in nil.
\<close>

fun pushAll :: "MPSCQueue \<Rightarrow> 's heap \<Rightarrow> addr list \<Rightarrow> MPSCQueue \<times> 's heap" where
  "pushAll q h [] = (q, h)"
| "pushAll q h (p # ps) = (case Push q p h of (b, q1, h1) \<Rightarrow> pushAll q1 h1 ps)"

fun chain :: "'s heap \<Rightarrow> addr option \<Rightarrow> addr list \<Rightarrow> bool" where
  "chain h p [] \<longleftrightarrow> p = None"
| "chain h p (a # as) \<longleftrightarrow> p = Some a \<and> chain h (nxt (h a)) as"

lemma chain_frame:
  "(\<And>a. a \<in> set as \<Longrightarrow> nxt (h' a) = nxt (h a)) \<Longrightarrow> chain h' p as = chain h p as"
  by (induction as arbitrary: p) auto

lemma chain_next_not_sentinel:
  "chain h p as \<Longrightarrow> settingNext \<notin> set as \<Longrightarrow> p \<noteq> Some settingNext"
  by (cases as) auto

lemma pushAll_chain:
  assumes "chain h (head q) xs" and "distinct (ps @ xs)"
  shows "case pushAll q h ps of (q1, h1) \<Rightarrow> chain h1 (head q1) (rev ps @ xs)"
  using assms
proof (induction ps arbitrary: q h xs)
  case Nil
  then show ?case by simp
next
  case (Cons p ps)
  let ?q1 = "q\<lparr>head := Some p\<rparr>"
  let ?h1 = "h(p := (h p)\<lparr>nxt := head q\<rparr>)"
  have "chain ?h1 (head q) xs = chain h (head q) xs"
    by (rule chain_frame) (use Cons.prems in auto)
  then have "chain ?h1 (head ?q1) (p # xs)" using Cons.prems by simp
  moreover have "distinct (ps @ p # xs)" using Cons.prems by auto
  ultimately have "case pushAll ?q1 ?h1 ps of (q1, h1) \<Rightarrow> chain h1 (head q1) (rev ps @ p # xs)"
    by (rule Cons.IH)
  then show ?case by (simp add: Push_def Let_def)
qed

lemma reverseChain_chain:
  assumes "chain h cur xs" and "chain h prev ys" and "distinct (xs @ ys)"
    and "settingNext \<notin> set xs"
  shows "\<exists>h1 p1. reverseChain h prev cur = Some (h1, p1) \<and> chain h1 p1 (rev xs @ ys)"
  using assms
proof (induction xs arbitrary: h cur prev ys)
  case Nil
  then show ?case by (subst reverseChain.simps) simp
next
  case (Cons x xs)
  let ?h1 = "h(x := (h x)\<lparr>nxt := prev\<rparr>)"
  from Cons.prems have c: "cur = Some x" and nx: "chain h (nxt (h x)) xs" by auto
  have ns: "nxt (h x) \<noteq> Some settingNext"
    using chain_next_not_sentinel [OF nx] Cons.prems by simp
  have "chain ?h1 (nxt (h x)) xs = chain h (nxt (h x)) xs"
    by (rule chain_frame) (use Cons.prems in auto)
  with nx have 1: "chain ?h1 (nxt (h x)) xs" by simp
  have "chain ?h1 prev ys = chain h prev ys"
    by (rule chain_frame) (use Cons.prems in auto)
  with Cons.prems have 2: "chain ?h1 (Some x) (x # ys)" by simp
  have 3: "distinct (xs @ x # ys)" using Cons.prems by auto
  have 4: "settingNext \<notin> set xs" using Cons.prems by simp
  from Cons.IH [OF 1 2 3 4] obtain h1 p1 where
    "reverseChain ?h1 (Some x) (nxt (h x)) = Some (h1, p1)" "chain h1 p1 (rev xs @ x # ys)"
    by blast
  then show ?case using c ns by (subst reverseChain.simps) simp
qed

lemma drainLoop_chain:
  assumes "\<forall>a st b. b \<noteq> a \<longrightarrow> nxt (fst (fn a st) b) = nxt (fst st b)"
    and "chain (fst st) hd0 xs" and "distinct xs"
  shows "drainLoop fn hd0 count st = Some (count + length xs, foldl (\<lambda>st a. fn a st) st xs)"
  using assms(2,3)
proof (induction xs arbitrary: hd0 count st)
  case Nil
  then show ?case by (subst drainLoop.simps) simp
next
  case (Cons x xs)
  from Cons.prems have c: "hd0 = Some x" and nx: "chain (fst st) (nxt (fst st x)) xs" by auto
  have "chain (fst (fn x st)) (nxt (fst st x)) xs = chain (fst st) (nxt (fst st x)) xs"
  proof (rule chain_frame)
    fix a assume "a \<in> set xs"
    then have "a \<noteq> x" using Cons.prems by auto
    then show "nxt (fst (fn x st) a) = nxt (fst st a)" using assms(1) by blast
  qed
  with nx have 1: "chain (fst (fn x st)) (nxt (fst st x)) xs" by simp
  have 2: "distinct xs" using Cons.prems by simp
  from Cons.IH [OF 1 2, of "count + 1"] c show ?case
    by (subst drainLoop.simps) simp
qed

text \<open>
  C7. \<^verbatim>\<open>Push\<close> returns true exactly when the head it replaced was nil, that is, when the
  queue was empty before the push and is not after it. The entry becomes the head and its
  link holds the old head.
\<close>

theorem Push_reports_empty:
  "fst (Push q entry h) = (head q = None)
   \<and> fst (Push q entry h) = (IsEmpty q \<and> \<not> IsEmpty (fst (snd (Push q entry h))))
   \<and> head (fst (snd (Push q entry h))) = Some entry
   \<and> nxt (snd (snd (Push q entry h)) entry) = head q"
  by (simp add: Push_def IsEmpty_def Let_def)

text \<open>
  C8. After the completed pushes \<open>p1, ..., pn\<close> of distinct entries (none of them the
  sentinel) into an empty queue, \<^verbatim>\<open>PopAll\<close> returns and leaves the chain \<open>p1, ..., pn\<close>, and
  \<^verbatim>\<open>DrainAll\<close> returns \<open>n\<close> after calling \<^verbatim>\<open>fn\<close> on \<open>p1\<close>, then \<open>p2\<close>, ..., then \<open>pn\<close>, for
  every \<^verbatim>\<open>fn\<close> that leaves the links of the other entries alone.
\<close>

theorem DrainAll_fifo:
  assumes "distinct ps" and "settingNext \<notin> set ps" and "head q = None"
    and "\<forall>a st b. b \<noteq> a \<longrightarrow> nxt (fst (fn a st) b) = nxt (fst st b)"
    and "pushAll q h ps = (q1, h1)"
  shows "\<exists>first h2. PopAll q1 h1 = Some (first, q1\<lparr>head := None\<rparr>, h2)
           \<and> chain h2 first ps
           \<and> DrainAll q1 fn (h1, s)
               = Some (length ps, q1\<lparr>head := None\<rparr>, foldl (\<lambda>st a. fn a st) (h2, s) ps)"
proof -
  have "chain h (head q) []" using assms(3) by simp
  from pushAll_chain [OF this, of ps] assms(1,5)
  have c1: "chain h1 (head q1) (rev ps)" by simp
  have "chain h1 None []" by simp
  from reverseChain_chain [OF c1 this] assms(1,2) obtain h2 first where
    r: "reverseChain h1 None (head q1) = Some (h2, first)" and c2: "chain h2 first ps"
    by auto
  have pop: "PopAll q1 h1 = Some (first, q1\<lparr>head := None\<rparr>, h2)"
  proof (cases "head q1")
    case None
    with r have "h2 = h1" "first = None" by (simp_all add: reverseChain.simps)
    with None show ?thesis by (simp add: PopAll_def)
  next
    case (Some a)
    with r show ?thesis by (simp add: PopAll_def)
  qed
  have "drainLoop fn first 0 (h2, s)
        = Some (0 + length ps, foldl (\<lambda>st a. fn a st) (h2, s) ps)"
    by (rule drainLoop_chain [OF assms(4)]) (use c2 assms(1) in auto)
  with pop c2 show ?thesis by (simp add: DrainAll_def)
qed

text \<open>A heap of blank entries, and a consumer that logs the entry and clears its link.\<close>

definition blankHeap :: "unit heap" where
  "blankHeap = (\<lambda>a. \<lparr>nxt = None, expireAt = 0, callback = None, removed = False\<rparr>)"

definition logAndUnlink :: "addr \<Rightarrow> unit heap \<times> addr list \<Rightarrow> unit heap \<times> addr list" where
  "logAndUnlink a st = ((fst st)(a := (fst st a)\<lparr>nxt := None\<rparr>), snd st @ [a])"

theorem DrainAll_fifo_witness:
  "(case pushAll NewMPSCQueue blankHeap [1, 2, 3] of
      (q1, h1) \<Rightarrow>
        head q1 = Some 3
        \<and> map_option (\<lambda>(n, q2, st). (n, head q2, snd st)) (DrainAll q1 logAndUnlink (h1, []))
            = Some (3, None, [1, 2, 3]))"
proof -
  obtain q1 h1 where p: "pushAll NewMPSCQueue blankHeap [1, 2, 3] = (q1, h1)"
    by (cases "pushAll NewMPSCQueue blankHeap [1, 2, 3]")
  then have hq: "head q1 = Some 3"
    by (auto simp: Push_def Let_def NewMPSCQueue_def)
  have fr: "\<forall>a st b. b \<noteq> a \<longrightarrow> nxt (fst (logAndUnlink a st) b) = nxt (fst st b)"
    by (simp add: logAndUnlink_def)
  have d: "distinct [1, 2, 3 :: addr]" and s: "settingNext \<notin> set [1, 2, 3]"
    and e: "head NewMPSCQueue = None"
    by (simp_all add: settingNext_def NewMPSCQueue_def)
  from DrainAll_fifo [OF d s e fr p, of "[]"] obtain h2 where
    "DrainAll q1 logAndUnlink (h1, [])
       = Some (length [1, 2, 3 :: addr], q1\<lparr>head := None\<rparr>,
               foldl (\<lambda>st a. logAndUnlink a st) (h2, []) [1, 2, 3])"
    by blast
  then show ?thesis using p hq by (simp add: logAndUnlink_def)
qed

text \<open>
  The entries of the pushes are distinct in the theorem above: the link is inside the
  entry, so a second push of the entry that is the head makes it its own successor, and no
  list is left to reverse.
\<close>

lemma Push_twice_cycle:
  "pushAll q h [e, e] = (q1, h1) \<Longrightarrow> head q1 = Some e \<and> nxt (h1 e) = Some e"
  by (auto simp: Push_def Let_def)

section \<open>Cancellation\<close>

text \<open>
  C4. Once \<^verbatim>\<open>Cancel\<close> has run on an entry, \<^verbatim>\<open>Execute\<close> on it leaves the world as it is,
  whatever the callback: the flag is read before the callback is looked at, so the
  callback runs zero times. The flag stays set, as \<^verbatim>\<open>IsCanceled\<close> reports, and a push of the
  entry on the queue between the two calls does not clear it. Without the \<^verbatim>\<open>Cancel\<close>, a live
  entry runs its callback.
\<close>

theorem Execute_after_Cancel:
  "Execute (Cancel e h) e s = s
   \<and> IsCanceled (Cancel e h) e
   \<and> Execute (snd (snd (Push q e (Cancel e h)))) e s = s
   \<and> Execute (h(e := \<lparr>nxt = n, expireAt = at, callback = Some f, removed = False\<rparr>)) e s = f s"
  by (simp add: Execute_def Cancel_def IsCanceled_def Push_def Let_def)

section \<open>The driver\<close>

text \<open>
  The state of a \<^verbatim>\<open>Timer\<close>, without the handler, which is an argument where it is used. A
  \<^verbatim>\<open>time.Time\<close> is its count of nanoseconds; \<^verbatim>\<open>sleepUntil\<close> holds such a count. The wake
  channel has capacity 1: \<open>wakeChan\<close> says that a signal is buffered. \<open>stopChan\<close> and
  \<open>doneChan\<close> say that the channel is closed.
\<close>

record Timer =
  wheel :: "Wheel option"
  start :: int
  numEntries :: u64
  queue :: MPSCQueue
  wakeChan :: bool
  stopChan :: bool
  doneChan :: bool
  sleepUntil :: int
  running :: bool











text \<open>
  \<^verbatim>\<open>buildWheelAndAdd\<close> (\<open>pickLevel\<close> is its loop over the levels), \<^verbatim>\<open>levelUpAndAdd\<close>
  (\<open>levelUpLoop\<close> is its loop), \<^verbatim>\<open>levelDownIfNeeded\<close> (with \<open>levelDownLoop\<close>) and
  \<^verbatim>\<open>maintenance\<close>.
\<close>

function pickLevel :: "int \<Rightarrow> u64 \<Rightarrow> int option" where
  "pickLevel lvl interval =
     (if lvl < MaxLevel then
        (case tbl maxMs lvl of
           None \<Rightarrow> None
         | Some m \<Rightarrow> if interval < m then Some lvl else pickLevel (lvl + 1) interval)
      else Some lvl)"
  by pat_completeness auto
termination
  by (relation "measure (\<lambda>(lvl, interval). nat (MaxLevel - lvl))") auto

definition buildWheelAndAdd :: "Timer \<Rightarrow> addr \<Rightarrow> u64 \<Rightarrow> Timer option" where
  "buildWheelAndAdd t entry interval =
     (case pickLevel 0 interval of
        None \<Rightarrow> None
      | Some lvl \<Rightarrow>
          (case AddEntry (NewWheel lvl) entry interval of
             None \<Rightarrow> None
           | Some w \<Rightarrow> Some (t\<lparr>wheel := Some w\<rparr>)))"

function levelUpLoop :: "Wheel \<Rightarrow> u64 \<Rightarrow> Wheel option" where
  "levelUpLoop w interval =
     (case MaxMs w of
        None \<Rightarrow> None
      | Some m \<Rightarrow>
          if interval \<ge> m \<and> level w < MaxLevel then levelUpLoop (LevelUp w) interval
          else Some w)"
  by pat_completeness auto
termination
  by (relation "measure (\<lambda>(w, interval). nat (MaxLevel - level w))")
     (auto simp: LevelUp_def NewWheelWithChild_def)


function levelDownLoop :: "Wheel option \<Rightarrow> Wheel option" where
  "levelDownLoop wo =
     (case wo of
        None \<Rightarrow> None
      | Some w \<Rightarrow> if CanLevelDown w then levelDownLoop (LevelDown w) else Some w)"
  by pat_completeness auto
termination
proof (relation "measure (\<lambda>wo. case wo of None \<Rightarrow> 0 | Some w \<Rightarrow> weight w)", goal_cases)
  case 1
  show ?case by simp
next
  case (2 wo w)
  show ?case
  proof (cases "LevelDown w")
    case None
    then show ?thesis using 2 weight_ge_level [of w] by simp
  next
    case (Some c)
    then have "subWheels w 0 = Some c" by (auto simp: LevelDown_def split: if_splits)
    from weight_child [OF _ this] Some 2 show ?thesis by simp
  qed
qed



declare pickLevel.simps [simp del] levelUpLoop.simps [simp del] levelDownLoop.simps [simp del]


subsection \<open>Scheduling never fails\<close>







subsection \<open>Scheduling after \<^verbatim>\<open>Stop\<close>\<close>




subsection \<open>\<^verbatim>\<open>Rotate\<close> by nothing or by a whole wheel\<close>







end
